theory Spec2Isabelle
  imports Main "HOL-Library.Word"
begin

section \<open>JavaScript strings\<close>

text \<open>
  A JavaScript string is a sequence of UTF-16 code units. Literals of the source are
  written with \<open>str\<close>, which maps each ASCII character to its code unit.
\<close>

type_synonym jsstring = "16 word list"

definition str :: "string \<Rightarrow> jsstring" where
  "str s = map (\<lambda>c. of_nat (of_char c)) s"

definition CHAR_FORWARD_SLASH :: "16 word" where
  "CHAR_FORWARD_SLASH = 47"

text \<open>\<open>String.prototype.slice(a, b)\<close> for \<open>0 \<le> a \<le> b\<close>.\<close>

definition slice :: "jsstring \<Rightarrow> nat \<Rightarrow> nat \<Rightarrow> jsstring" where
  "slice s a b = take (b - a) (drop a s)"

section \<open>The \<open>path\<close> module (POSIX)\<close>

text \<open>
  \<open>index.js\<close> calls \<open>path.dirname\<close>, \<open>path.basename\<close> and \<open>path.parse\<close> of
  Node's built-in \<open>path\<close> module. The definitions below follow the POSIX implementation
  of that module (\<open>lib/path.js\<close>, object \<open>posix\<close>), loop by loop: each loop scans the
  string from its last index downwards. In the loop functions the argument \<open>Suc i\<close> stands
  for the loop variable having the value \<open>i\<close>; the value \<open>-1\<close> of \<open>end\<close> is \<open>None\<close>.
  On Windows \<open>path\<close> is the object \<open>win32\<close> of the same file, with drive letters and
  two separators; it is not modelled here.
\<close>

text \<open>
  \<^verbatim>\<open>for (let i = path.length - 1; i >= 1; --i)\<close> of \<open>dirname\<close>: the result is \<open>end\<close>.
\<close>

fun dirname_loop :: "jsstring \<Rightarrow> nat \<Rightarrow> bool \<Rightarrow> nat option" where
  "dirname_loop path 0 matchedSlash = None"
| "dirname_loop path (Suc i) matchedSlash =
     (if i < 1 then None
      else if path ! i = CHAR_FORWARD_SLASH then
        (if \<not> matchedSlash then Some i else dirname_loop path i matchedSlash)
      else dirname_loop path i False)"

definition path_dirname :: "jsstring \<Rightarrow> jsstring" where
  "path_dirname path =
     (if length path = 0 then str ''.''
      else
        let hasRoot = (path ! 0 = CHAR_FORWARD_SLASH) in
        case dirname_loop path (length path) True of
          None \<Rightarrow> (if hasRoot then str ''/'' else str ''.'')
        | Some end' \<Rightarrow>
            if hasRoot \<and> end' = 1 then str ''//''
            else slice path 0 end')"

text \<open>
  \<^verbatim>\<open>for (let i = path.length - 1; i >= 0; --i)\<close> of \<open>basename\<close> (called without a
  suffix): the result is the pair \<open>(start, end)\<close>.
\<close>

fun basename_loop :: "jsstring \<Rightarrow> nat \<Rightarrow> bool \<Rightarrow> nat option \<Rightarrow> nat \<times> nat option" where
  "basename_loop path 0 matchedSlash end' = (0, end')"
| "basename_loop path (Suc i) matchedSlash end' =
     (if path ! i = CHAR_FORWARD_SLASH then
        (if \<not> matchedSlash then (i + 1, end') else basename_loop path i matchedSlash end')
      else if end' = None then basename_loop path i False (Some (i + 1))
      else basename_loop path i matchedSlash end')"

definition path_basename :: "jsstring \<Rightarrow> jsstring" where
  "path_basename path =
     (case basename_loop path (length path) True None of
        (start, None) \<Rightarrow> []
      | (start, Some end') \<Rightarrow> slice path start end')"

text \<open>
  \<open>path.parse\<close>: the fields \<open>root\<close>, \<open>dir\<close> and \<open>base\<close> of the result (\<open>ext\<close> and
  \<open>name\<close>, which only split \<open>base\<close> at its last dot, are not read by the plugin and are
  left out together with the loop variables that serve them). The loop
  \<^verbatim>\<open>for (; i >= start; --i)\<close> returns the pair \<open>(startPart, end)\<close>.
\<close>

record parsedPath =
  pp_root :: jsstring
  pp_dir :: jsstring
  pp_base :: jsstring

fun parse_loop :: "jsstring \<Rightarrow> nat \<Rightarrow> nat \<Rightarrow> bool \<Rightarrow> nat option \<Rightarrow> nat \<times> nat option" where
  "parse_loop path start 0 matchedSlash end' = (0, end')"
| "parse_loop path start (Suc i) matchedSlash end' =
     (if i < start then (0, end')
      else if path ! i = CHAR_FORWARD_SLASH then
        (if \<not> matchedSlash then (i + 1, end') else parse_loop path start i matchedSlash end')
      else if end' = None then parse_loop path start i False (Some (i + 1))
      else parse_loop path start i matchedSlash end')"

definition path_parse :: "jsstring \<Rightarrow> parsedPath" where
  "path_parse path =
     (if length path = 0 then \<lparr>pp_root = [], pp_dir = [], pp_base = []\<rparr>
      else
        let isAbsolute = (path ! 0 = CHAR_FORWARD_SLASH);
            root = (if isAbsolute then str ''/'' else []);
            start = (if isAbsolute then 1 else 0)
        in case parse_loop path start (length path) True None of (startPart, end') \<Rightarrow>
          \<lparr>pp_root = root,
           pp_dir = (if startPart > 0 then slice path 0 (startPart - 1)
                     else if isAbsolute then str ''/'' else []),
           pp_base = (case end' of
                        None \<Rightarrow> []
                      | Some e \<Rightarrow> slice path (if startPart = 0 \<and> isAbsolute then 1 else startPart) e)\<rparr>)"

section \<open>The environment of the plugin\<close>

text \<open>
  What the plugin takes from its environment: \<open>String.prototype.toLowerCase\<close>,
  \<open>String.prototype.normalize('NFC')\<close> and the \<open>readdir\<close> of the compiler's input file
  system, which calls back, once, with an error or with the names of the directory's
  entries. They are parameters of the model: every theorem holds for whatever functions
  stand for them.
\<close>

datatype readdir_result = ReaddirError | ReaddirFiles "jsstring list"

record runtime =
  toLowerCase :: "jsstring \<Rightarrow> jsstring"
  normalizeNFC :: "jsstring \<Rightarrow> jsstring"
  readdir :: "jsstring \<Rightarrow> readdir_result"

section \<open>The state of the plugin\<close>

text \<open>
  A \<open>Mutex\<close> of the \<open>async-mutex\<close> package: the caller that holds the lock, with how far
  the function it passed to \<open>runExclusive\<close> has come (\<open>Acquired\<close>: not yet started;
  \<open>Reading\<close>: it has called \<open>fs.readdir\<close> and awaits the callback; \<open>Finished\<close>: it has
  settled and the lock is about to be released), and the callers queued behind it in
  arrival order. Callers are identified by numbers. \<open>runExclusive\<close> asks for the lock,
  which a free mutex grants at once and a held one in arrival order; it starts the
  function in a later turn of the event loop, and releases the lock in a later turn
  after the function, or the promise it returned, has settled.
\<close>

datatype phase = Acquired | Reading | Finished

record mutex =
  holder :: "(nat \<times> phase) option"
  waiters :: "nat list"

definition newMutex :: mutex where
  "newMutex = \<lparr>holder = None, waiters = []\<rparr>"

text \<open>
  The fields of \<open>CaseSensitivePathsPlugin\<close> that the functions below read and write.
  The options and the logger only produce diagnostic output (\<open>options.debug\<close>) and are
  left out.
\<close>

record plugin =
  pathCache :: "jsstring \<rightharpoonup> jsstring list"
  visitedPathMutexRecord :: "jsstring \<rightharpoonup> mutex"
  fsOperations :: nat

definition reset :: "plugin \<Rightarrow> plugin" where
  "reset s = s\<lparr>pathCache := Map.empty, visitedPathMutexRecord := Map.empty, fsOperations := 0\<rparr>"

text \<open>\<open>onDone\<close>: the handler of the compiler's \<open>done\<close> hook.\<close>

definition onDone :: "plugin \<Rightarrow> plugin" where
  "onDone s = reset s"

section \<open>\<open>getFilenamesInDir\<close>\<close>

text \<open>Lines 73 to 75: the mutex of \<open>dir\<close> is created when there is none.\<close>

definition ensureMutex :: "jsstring \<Rightarrow> plugin \<Rightarrow> plugin" where
  "ensureMutex dir s =
     (if visitedPathMutexRecord s dir = None
      then s\<lparr>visitedPathMutexRecord := (visitedPathMutexRecord s)(dir \<mapsto> newMutex)\<rparr>
      else s)"

text \<open>
  Lines 104 to 121, the callback given to \<open>fs.readdir\<close>: the names it passes on, and the
  state with the new cache entry.
\<close>

definition readdirCallback ::
  "runtime \<Rightarrow> jsstring \<Rightarrow> readdir_result \<Rightarrow> plugin \<Rightarrow> jsstring list \<times> plugin" where
  "readdirCallback rt dir res s =
     (case res of
        ReaddirError \<Rightarrow> ([], s\<lparr>pathCache := (pathCache s)(dir \<mapsto> [])\<rparr>)
      | ReaddirFiles files \<Rightarrow>
          let fileNames = map (normalizeNFC rt) files
          in (fileNames, s\<lparr>pathCache := (pathCache s)(dir \<mapsto> fileNames)\<rparr>))"

text \<open>
  \<open>getFilenamesInDir\<close> run to its callback with no other call interleaved: the names
  passed to the callback and the state then. The mutex is free when \<open>runExclusive\<close> asks
  for it and free again afterwards. The interleaved executions are the subject of the
  section on scheduling below.
\<close>

definition getFilenamesInDir :: "runtime \<Rightarrow> jsstring \<Rightarrow> plugin \<Rightarrow> jsstring list \<times> plugin" where
  "getFilenamesInDir rt dir s =
     (let s1 = ensureMutex dir s in
      case pathCache s1 dir of
        Some names \<Rightarrow> (names, s1)
      | None \<Rightarrow>
          (case pathCache s1 dir of
             Some names \<Rightarrow> (names, s1)
           | None \<Rightarrow>
               readdirCallback rt dir (readdir rt dir)
                 (s1\<lparr>fsOperations := fsOperations s1 + 1\<rparr>)))"

section \<open>\<open>fileExistsWithCase\<close>\<close>

text \<open>
  Lines 156 to 163: the fallback value and the loop over \<open>filenames\<close> that looks for an
  entry equal to \<open>filename\<close> up to case.
\<close>

fun correctFilename :: "runtime \<Rightarrow> jsstring \<Rightarrow> jsstring list \<Rightarrow> jsstring" where
  "correctFilename rt filename [] = str ''!nonexistent''"
| "correctFilename rt filename (f # fs) =
     (if toLowerCase rt f = toLowerCase rt filename then str ''`'' @ f @ str ''`.''
      else correctFilename rt filename fs)"

lemma dirname_loop_bounds:
  "dirname_loop path n matchedSlash = Some e \<Longrightarrow> 1 \<le> e \<and> e < n"
  by (induction path n matchedSlash rule: dirname_loop.induct)
     (fastforce split: if_splits)+

lemma path_parse_slash:
  "pp_dir (path_parse (str ''/'')) = pp_root (path_parse (str ''/''))"
  by (simp add: path_parse_def str_def CHAR_FORWARD_SLASH_def)

lemma path_parse_slash_slash:
  "pp_dir (path_parse (str ''//'')) = pp_root (path_parse (str ''//''))"
  by (simp add: path_parse_def str_def CHAR_FORWARD_SLASH_def slice_def)

lemma path_dirname_shorter:
  assumes "pp_dir (path_parse (path_dirname p)) \<noteq> pp_root (path_parse (path_dirname p))"
    and "path_dirname p \<noteq> str ''.''"
  shows "length (path_dirname p) < length p"
proof (cases "dirname_loop p (length p) True")
  case None
  with assms show ?thesis
    by (auto simp: path_dirname_def Let_def path_parse_slash split: if_splits)
next
  case (Some e)
  then have "1 \<le> e \<and> e < length p"
    by (rule dirname_loop_bounds)
  with Some assms show ?thesis
    by (auto simp: path_dirname_def Let_def path_parse_slash_slash slice_def split: if_splits)
qed

text \<open>
  \<open>fileExistsWithCase\<close> run to its callback: the value passed to the callback
  (\<open>None\<close> for \<open>callback()\<close>, which passes \<open>undefined\<close>) and the state then.
\<close>

function fileExistsWithCase ::
  "runtime \<Rightarrow> jsstring \<Rightarrow> plugin \<Rightarrow> jsstring option \<times> plugin" where
  "fileExistsWithCase rt filepath s =
     (let dir = path_dirname filepath;
          filename = path_basename filepath;
          parsedPath = path_parse dir
      in if pp_dir parsedPath = pp_root parsedPath \<or> dir = str ''.'' then (None, s)
         else
           case getFilenamesInDir rt dir s of (filenames, s') \<Rightarrow>
             if filename \<notin> set filenames
             then (Some (correctFilename rt filename filenames), s')
             else fileExistsWithCase rt dir s')"
  by pat_completeness auto
termination
  by (relation "measure (\<lambda>(rt, filepath, s). length filepath)")
     (auto simp: path_dirname_shorter)

declare fileExistsWithCase.simps [simp del]

text \<open>
  The same function with a bound on the number of nested calls: \<open>None\<close> when the
  bound is used up before a call returns.
\<close>

fun fileExistsWithCase_bounded ::
  "nat \<Rightarrow> runtime \<Rightarrow> jsstring \<Rightarrow> plugin \<Rightarrow> (jsstring option \<times> plugin) option" where
  "fileExistsWithCase_bounded 0 rt filepath s = None"
| "fileExistsWithCase_bounded (Suc n) rt filepath s =
     (let dir = path_dirname filepath;
          filename = path_basename filepath;
          parsedPath = path_parse dir
      in if pp_dir parsedPath = pp_root parsedPath \<or> dir = str ''.'' then Some (None, s)
         else
           case getFilenamesInDir rt dir s of (filenames, s') \<Rightarrow>
             if filename \<notin> set filenames
             then Some (Some (correctFilename rt filename filenames), s')
             else fileExistsWithCase_bounded n rt dir s')"

section \<open>The hooks\<close>

text \<open>
  The arguments with which \<open>checkFile\<close> calls \<open>done\<close>: \<open>done(null)\<close>, \<open>done(null, data)\<close>
  or \<open>done(new Error(message))\<close>.
\<close>

datatype done_args = Done_null | Done_null_data | Done_error jsstring

text \<open>The truth value JavaScript gives to a string or \<open>undefined\<close> in a condition.\<close>

definition truthy :: "jsstring option \<Rightarrow> bool" where
  "truthy v = (case v of None \<Rightarrow> False | Some r \<Rightarrow> r \<noteq> [])"

text \<open>The conversion of a value to a string inside a template literal.\<close>

definition toString :: "jsstring option \<Rightarrow> jsstring" where
  "toString v = (case v of None \<Rightarrow> str ''undefined'' | Some r \<Rightarrow> r)"

text \<open>
  \<open>checkFile\<close>; \<open>createData\<close> says whether \<open>data.createData\<close> is set.
\<close>

definition checkFile :: "runtime \<Rightarrow> jsstring \<Rightarrow> bool \<Rightarrow> plugin \<Rightarrow> done_args \<times> plugin" where
  "checkFile rt pathName createData s =
     (case fileExistsWithCase rt pathName s of (realName, s') \<Rightarrow>
        (if truthy realName then
           (if realName = Some (str ''!nonexistent'') then
              (if createData then Done_null else Done_null_data)
            else
              Done_error
                (str ''[CaseSensitivePathsPlugin] `'' @ pathName @
                 str ''` does not match the corresponding path on disk '' @ toString realName))
         else if createData then Done_null
         else Done_null_data,
         s'))"

text \<open>
  \<open>String.prototype.replace\<close> with a string pattern and a replacement without \<open>$\<close>: the
  first occurrence of the pattern, from the left, is replaced.
\<close>

fun js_replace :: "jsstring \<Rightarrow> jsstring \<Rightarrow> jsstring \<Rightarrow> jsstring" where
  "js_replace pat rep [] = (if pat = [] then rep else [])"
| "js_replace pat rep (c # cs) =
     (if take (length pat) (c # cs) = pat then rep @ drop (length pat) (c # cs)
      else c # js_replace pat rep cs)"

text \<open>
  \<open>cleanupPath\<close>: \<open>split('?')[0]\<close> is the part of the string before its first \<open>?\<close>
  (code unit 63); the pattern of \<open>replace\<close> is the code unit 0 followed by \<open>#\<close>.
\<close>

definition cleanupPath :: "jsstring \<Rightarrow> jsstring" where
  "cleanupPath resourcePath =
     js_replace (0 # str ''#'') (str ''#'') (takeWhile (\<lambda>c. c \<noteq> 63) resourcePath)"

text \<open>
  \<open>onAfterResolve\<close>; \<open>resource\<close> is \<open>(data.createData || data).resource\<close>.
\<close>

definition onAfterResolve :: "runtime \<Rightarrow> jsstring \<Rightarrow> bool \<Rightarrow> plugin \<Rightarrow> done_args \<times> plugin" where
  "onAfterResolve rt resource createData s =
     (let pathName = cleanupPath resource;
          pathName = normalizeNFC rt pathName
      in checkFile rt pathName createData s)"

section \<open>Scheduling\<close>

text \<open>
  JavaScript runs one piece of code at a time, and a call of \<open>getFilenamesInDir\<close> is
  cut into pieces by its two suspension points, \<open>runExclusive\<close> and \<open>fs.readdir\<close>. An
  execution of the plugin within one build pass is therefore a sequence of events:
  \<^item> \<open>Call c dir\<close>: caller \<open>c\<close> calls \<open>getFilenamesInDir(dir, callback)\<close>; lines 73 to 88
    run, up to the request for the mutex, which is granted at once when the mutex is
    free and queued otherwise;
  \<^item> \<open>RunExclusive dir\<close>: the function passed to \<open>runExclusive\<close> by the caller that holds
    the mutex of \<open>dir\<close> starts; lines 89 to 104 run, up to the call of \<open>fs.readdir\<close>;
  \<^item> \<open>ReaddirDone dir res\<close>: \<open>fs.readdir\<close> calls back with \<open>res\<close>; lines 105 to 121 run;
  \<^item> \<open>Release dir\<close>: \<open>runExclusive\<close> releases the mutex of \<open>dir\<close> after the function it
    ran has settled, and the first caller in the queue, if any, becomes the holder.

  Callers are arbitrary: any \<open>Call\<close> may happen at any moment, which covers the calls
  that \<open>fileExistsWithCase\<close> makes from inside a callback. Besides the state of the
  plugin, a world records every call of \<open>fs.readdir\<close> and every invocation of a
  callback, in order.
\<close>

record world =
  plugin_state :: plugin
  readdirLog :: "jsstring list"
  delivered :: "(nat \<times> jsstring \<times> jsstring list) list"

datatype event =
  Call nat jsstring
| RunExclusive jsstring
| ReaddirDone jsstring readdir_result
| Release jsstring

definition setMutex :: "jsstring \<Rightarrow> mutex \<Rightarrow> plugin \<Rightarrow> plugin" where
  "setMutex dir m s = s\<lparr>visitedPathMutexRecord := (visitedPathMutexRecord s)(dir \<mapsto> m)\<rparr>"

text \<open>\<open>Mutex.acquire\<close> and the release function it hands out.\<close>

definition acquire :: "nat \<Rightarrow> mutex \<Rightarrow> mutex" where
  "acquire c m =
     (if holder m = None then m\<lparr>holder := Some (c, Acquired)\<rparr>
      else m\<lparr>waiters := waiters m @ [c]\<rparr>)"

definition release :: "mutex \<Rightarrow> mutex" where
  "release m =
     (case waiters m of
        [] \<Rightarrow> m\<lparr>holder := None\<rparr>
      | c # cs \<Rightarrow> m\<lparr>holder := Some (c, Acquired), waiters := cs\<rparr>)"

text \<open>The caller for which the mutex of \<open>dir\<close> is held in phase \<open>ph\<close>, if there is one.\<close>

definition holderIn :: "phase \<Rightarrow> jsstring \<Rightarrow> plugin \<Rightarrow> (nat \<times> mutex) option" where
  "holderIn ph dir s =
     (case visitedPathMutexRecord s dir of
        None \<Rightarrow> None
      | Some m \<Rightarrow>
          (case holder m of
             None \<Rightarrow> None
           | Some (c, ph') \<Rightarrow> if ph' = ph then Some (c, m) else None))"

text \<open>One event; \<open>None\<close> when the event cannot happen in the world.\<close>

fun step :: "runtime \<Rightarrow> event \<Rightarrow> world \<Rightarrow> world option" where
  "step rt (Call c dir) w =
     (let s1 = ensureMutex dir (plugin_state w) in
      case pathCache s1 dir of
        Some names \<Rightarrow>
          Some (w\<lparr>plugin_state := s1, delivered := delivered w @ [(c, dir, names)]\<rparr>)
      | None \<Rightarrow>
          (case visitedPathMutexRecord s1 dir of
             None \<Rightarrow> None
           | Some m \<Rightarrow> Some (w\<lparr>plugin_state := setMutex dir (acquire c m) s1\<rparr>)))"
| "step rt (RunExclusive dir) w =
     (let s = plugin_state w in
      case holderIn Acquired dir s of
        None \<Rightarrow> None
      | Some (c, m) \<Rightarrow>
          (case pathCache s dir of
             Some names \<Rightarrow>
               Some (w\<lparr>plugin_state := setMutex dir (m\<lparr>holder := Some (c, Finished)\<rparr>) s,
                        delivered := delivered w @ [(c, dir, names)]\<rparr>)
           | None \<Rightarrow>
               Some (w\<lparr>plugin_state :=
                          setMutex dir (m\<lparr>holder := Some (c, Reading)\<rparr>)
                            (s\<lparr>fsOperations := fsOperations s + 1\<rparr>),
                        readdirLog := readdirLog w @ [dir]\<rparr>)))"
| "step rt (ReaddirDone dir res) w =
     (let s = plugin_state w in
      case holderIn Reading dir s of
        None \<Rightarrow> None
      | Some (c, m) \<Rightarrow>
          (case readdirCallback rt dir res s of (names, s') \<Rightarrow>
             Some (w\<lparr>plugin_state := setMutex dir (m\<lparr>holder := Some (c, Finished)\<rparr>) s',
                      delivered := delivered w @ [(c, dir, names)]\<rparr>)))"
| "step rt (Release dir) w =
     (let s = plugin_state w in
      case holderIn Finished dir s of
        None \<Rightarrow> None
      | Some (c, m) \<Rightarrow> Some (w\<lparr>plugin_state := setMutex dir (release m) s\<rparr>))"

fun run :: "runtime \<Rightarrow> event list \<Rightarrow> world \<Rightarrow> world option" where
  "run rt [] w = Some w"
| "run rt (e # es) w = (case step rt e w of None \<Rightarrow> None | Some w' \<Rightarrow> run rt es w')"

text \<open>The world at the start of a build pass: the state after \<open>reset\<close>, nothing logged.\<close>

definition newPass :: "plugin \<Rightarrow> world" where
  "newPass s = \<lparr>plugin_state = reset s, readdirLog = [], delivered = []\<rparr>"

text \<open>
  The phase of the holder of the mutex of \<open>d\<close>, and the callers of
  \<open>getFilenamesInDir(d, _)\<close> whose callback is still to be invoked: the holder, unless it
  has finished, and the queue.
\<close>

definition phaseOf :: "jsstring \<Rightarrow> plugin \<Rightarrow> phase option" where
  "phaseOf d s =
     (case visitedPathMutexRecord s d of None \<Rightarrow> None | Some m \<Rightarrow> map_option snd (holder m))"

definition pendingOf :: "mutex \<Rightarrow> nat list" where
  "pendingOf m =
     (case holder m of
        None \<Rightarrow> []
      | Some (c, ph) \<Rightarrow> if ph = Finished then [] else [c]) @ waiters m"

definition pendingAt :: "jsstring \<Rightarrow> plugin \<Rightarrow> nat list" where
  "pendingAt d s = (case visitedPathMutexRecord s d of None \<Rightarrow> [] | Some m \<Rightarrow> pendingOf m)"

text \<open>
  A bound on the events that the mutex of \<open>d\<close> can still give rise to when no further
  call arrives: three for every queued caller, and three, two or one for the holder
  according to its phase. \<open>eventOf d e\<close> says that \<open>e\<close> is an event of the mutex of \<open>d\<close>.
\<close>

fun phaseWork :: "phase \<Rightarrow> nat" where
  "phaseWork Acquired = 3"
| "phaseWork Reading = 2"
| "phaseWork Finished = 1"

definition workOf :: "mutex \<Rightarrow> nat" where
  "workOf m =
     3 * length (waiters m) + (case holder m of None \<Rightarrow> 0 | Some (c, ph) \<Rightarrow> phaseWork ph)"

definition workAt :: "jsstring \<Rightarrow> plugin \<Rightarrow> nat" where
  "workAt d s = (case visitedPathMutexRecord s d of None \<Rightarrow> 0 | Some m \<Rightarrow> workOf m)"

definition eventOf :: "jsstring \<Rightarrow> event \<Rightarrow> bool" where
  "eventOf d e = (case e of Call c d' \<Rightarrow> False | RunExclusive d' \<Rightarrow> d' = d
                  | ReaddirDone d' res \<Rightarrow> d' = d | Release d' \<Rightarrow> d' = d)"

text \<open>
  The invariant of a build pass. For every directory: \<open>fs.readdir\<close> has been called once
  if the directory is cached or being read, and never otherwise; a directory being read
  is not cached; every callback invoked for the directory received its cache entry; a
  free mutex has an empty queue. And \<open>fsOperations\<close> counts the calls of \<open>fs.readdir\<close>.
\<close>

definition passInv :: "world \<Rightarrow> bool" where
  "passInv w =
     ((\<forall>d. count_list (readdirLog w) d =
            (if pathCache (plugin_state w) d \<noteq> None \<or> phaseOf d (plugin_state w) = Some Reading
             then 1 else 0)
          \<and> (phaseOf d (plugin_state w) = Some Reading \<longrightarrow> pathCache (plugin_state w) d = None)
          \<and> (\<forall>c names. (c, d, names) \<in> set (delivered w) \<longrightarrow>
                pathCache (plugin_state w) d = Some names)
          \<and> (phaseOf d (plugin_state w) = None \<longrightarrow> pendingAt d (plugin_state w) = []))
      \<and> fsOperations (plugin_state w) = length (readdirLog w))"

section \<open>An example environment\<close>

text \<open>
  The examples use ASCII names only: there \<open>toLowerCase\<close> maps \<open>A\<close> to \<open>Z\<close> onto \<open>a\<close> to
  \<open>z\<close> and \<open>normalize('NFC')\<close> changes nothing. The example file system answers like a
  case-insensitive one: the directory stored as \<open>/a/B\<close> is listed under \<open>/a/b\<close> as well.
\<close>

definition asciiLower :: "16 word \<Rightarrow> 16 word" where
  "asciiLower c = (if 65 \<le> c \<and> c \<le> 90 then c + 32 else c)"

definition exampleFs :: "jsstring \<Rightarrow> readdir_result" where
  "exampleFs d =
     (if d = str ''/a'' then ReaddirFiles [str ''B'']
      else if d = str ''/a/B'' \<or> d = str ''/a/b'' then
        ReaddirFiles [str ''c.txt'', str ''Odd'', str ''C.TXT'']
      else if d = str ''/a/B/Odd'' \<or> d = str ''/a/b/Odd'' then
        ReaddirFiles [str ''!nonexistent'']
      else ReaddirError)"

definition exampleRuntime :: runtime where
  "exampleRuntime = \<lparr>toLowerCase = map asciiLower, normalizeNFC = (\<lambda>s. s), readdir = exampleFs\<rparr>"

text \<open>
  Four callers ask for the same directory; three of them before it is cached.
\<close>

definition exampleEvents :: "event list" where
  "exampleEvents =
     [Call 1 (str ''/a/B''), Call 2 (str ''/a/B''), RunExclusive (str ''/a/B''),
      Call 3 (str ''/a/B''), ReaddirDone (str ''/a/B'') (exampleFs (str ''/a/B'')),
      Release (str ''/a/B''), RunExclusive (str ''/a/B''), Release (str ''/a/B''),
      RunExclusive (str ''/a/B''), Release (str ''/a/B''), Call 4 (str ''/a/B'')]"

text \<open>The state the constructor leaves (lines 34 to 61).\<close>

definition newPlugin :: plugin where
  "newPlugin = \<lparr>pathCache = Map.empty, visitedPathMutexRecord = Map.empty, fsOperations = 0\<rparr>"

text \<open>The state after \<open>/a/B\<close> has been listed once.\<close>

definition cachedPlugin :: plugin where
  "cachedPlugin = snd (getFilenamesInDir exampleRuntime (str ''/a/B'') newPlugin)"

text \<open>Two callers ask for a directory that cannot be read.\<close>

definition goneEvents :: "event list" where
  "goneEvents =
     [Call 1 (str ''/a/gone''), RunExclusive (str ''/a/gone''),
      ReaddirDone (str ''/a/gone'') ReaddirError, Release (str ''/a/gone''),
      Call 2 (str ''/a/gone'')]"

text \<open>
  A file system with \<open>#\<close> in the names of two nested directories.
\<close>

definition hashFs :: "jsstring \<Rightarrow> readdir_result" where
  "hashFs d =
     (if d = str ''/w'' then ReaddirFiles [str ''a#1'']
      else if d = str ''/w/a#1'' then ReaddirFiles [str ''b#2'']
      else if d = str ''/w/a#1/b#2'' then ReaddirFiles [str ''x.js'']
      else ReaddirError)"

definition hashRuntime :: runtime where
  "hashRuntime = exampleRuntime\<lparr>readdir := hashFs\<rparr>"

text \<open>
  The condition under which \<open>fileExistsWithCase\<close> returns at once (lines 140 to 148).
\<close>

definition atRoot :: "jsstring \<Rightarrow> bool" where
  "atRoot filepath =
     (let dir = path_dirname filepath;
          parsedPath = path_parse dir
      in pp_dir parsedPath = pp_root parsedPath \<or> dir = str ''.'')"

text \<open>The value passed on for a wrongly cased segment whose entry on disk is \<open>name\<close>.\<close>

definition mismatchValue :: "jsstring \<Rightarrow> jsstring" where
  "mismatchValue name = str ''`'' @ name @ str ''`.''"

section \<open>The invariant of a build pass\<close>

lemma passInv_newPass: "passInv (newPass s)"
  by (simp add: passInv_def newPass_def reset_def phaseOf_def pendingAt_def)

lemma pathCache_ensureMutex [simp]: "pathCache (ensureMutex dir s) = pathCache s"
  by (simp add: ensureMutex_def)

lemma fsOperations_ensureMutex [simp]: "fsOperations (ensureMutex dir s) = fsOperations s"
  by (simp add: ensureMutex_def)

lemma pathCache_setMutex [simp]: "pathCache (setMutex dir m s) = pathCache s"
  by (simp add: setMutex_def)

lemma fsOperations_setMutex [simp]: "fsOperations (setMutex dir m s) = fsOperations s"
  by (simp add: setMutex_def)

lemma phaseOf_setMutex [simp]:
  "phaseOf d (setMutex dir m s) = (if d = dir then map_option snd (holder m) else phaseOf d s)"
  by (simp add: phaseOf_def setMutex_def)

lemma phaseOf_ensureMutex [simp]: "phaseOf d (ensureMutex dir s) = phaseOf d s"
  by (auto simp: phaseOf_def ensureMutex_def newMutex_def)

lemma phaseOf_fsOperations [simp]: "phaseOf d (s\<lparr>fsOperations := n\<rparr>) = phaseOf d s"
  by (simp add: phaseOf_def)

lemma holderIn_phaseOf: "holderIn ph dir s = Some (c, m) \<Longrightarrow> phaseOf dir s = Some ph"
  by (auto simp: holderIn_def phaseOf_def split: option.splits if_splits)

lemma phaseOf_acquire:
  "visitedPathMutexRecord s dir = Some m \<Longrightarrow>
     (map_option snd (holder (acquire c m)) = Some Reading) = (phaseOf dir s = Some Reading)"
  by (auto simp: acquire_def phaseOf_def)

lemma phase_release: "map_option snd (holder (release m)) \<noteq> Some Reading"
  by (auto simp: release_def split: list.splits)

lemma readdirCallback_fields:
  "readdirCallback rt dir res s = (names, s') \<Longrightarrow>
     pathCache s' = (pathCache s)(dir \<mapsto> names) \<and>
     visitedPathMutexRecord s' = visitedPathMutexRecord s \<and>
     fsOperations s' = fsOperations s"
  by (auto simp: readdirCallback_def Let_def split: readdir_result.splits)

lemma phaseOf_cong:
  "visitedPathMutexRecord s' = visitedPathMutexRecord s \<Longrightarrow> phaseOf d s' = phaseOf d s"
  by (simp add: phaseOf_def)

lemma step_Call_effect:
  assumes "step rt (Call c dir) w = Some w'"
  shows "pathCache (plugin_state w') = pathCache (plugin_state w)"
    and "(phaseOf d (plugin_state w') = Some Reading) = (phaseOf d (plugin_state w) = Some Reading)"
    and "readdirLog w' = readdirLog w"
    and "fsOperations (plugin_state w') = fsOperations (plugin_state w)"
    and "delivered w' =
           delivered w @ (case pathCache (plugin_state w) dir of
                            None \<Rightarrow> [] | Some names \<Rightarrow> [(c, dir, names)])"
proof -
  let ?s1 = "ensureMutex dir (plugin_state w)"
  show "pathCache (plugin_state w') = pathCache (plugin_state w)"
    using assms by (auto simp: Let_def split: option.splits)
  show "readdirLog w' = readdirLog w"
    using assms by (auto simp: Let_def split: option.splits)
  show "fsOperations (plugin_state w') = fsOperations (plugin_state w)"
    using assms by (auto simp: Let_def split: option.splits)
  show "delivered w' =
           delivered w @ (case pathCache (plugin_state w) dir of
                            None \<Rightarrow> [] | Some names \<Rightarrow> [(c, dir, names)])"
    using assms by (auto simp: Let_def split: option.splits)
  show "(phaseOf d (plugin_state w') = Some Reading) = (phaseOf d (plugin_state w) = Some Reading)"
  proof (cases "pathCache (plugin_state w) dir")
    case (Some names)
    with assms show ?thesis by (auto simp: Let_def)
  next
    case None
    with assms obtain m where m: "visitedPathMutexRecord ?s1 dir = Some m"
      and w': "w' = w\<lparr>plugin_state := setMutex dir (acquire c m) ?s1\<rparr>"
      by (auto simp: Let_def split: option.splits)
    from phaseOf_acquire [OF m, of c] show ?thesis
      by (simp add: w')
  qed
qed

lemma step_RunExclusive_effect:
  assumes "step rt (RunExclusive dir) w = Some w'"
  shows "pathCache (plugin_state w') = pathCache (plugin_state w)"
    and "phaseOf dir (plugin_state w) = Some Acquired"
    and "phaseOf d (plugin_state w') =
           (if d = dir then (if pathCache (plugin_state w) dir = None then Some Reading else Some Finished)
            else phaseOf d (plugin_state w))"
    and "readdirLog w' =
           readdirLog w @ (case pathCache (plugin_state w) dir of None \<Rightarrow> [dir] | Some names \<Rightarrow> [])"
    and "fsOperations (plugin_state w') =
           fsOperations (plugin_state w) +
             (case pathCache (plugin_state w) dir of None \<Rightarrow> 1 | Some names \<Rightarrow> 0)"
    and "\<exists>c. delivered w' =
           delivered w @ (case pathCache (plugin_state w) dir of
                            None \<Rightarrow> [] | Some names \<Rightarrow> [(c, dir, names)])"
  using assms
  by (auto simp: Let_def dest: holderIn_phaseOf split: option.splits)

lemma step_ReaddirDone_effect:
  assumes "step rt (ReaddirDone dir res) w = Some w'"
  shows "phaseOf dir (plugin_state w) = Some Reading"
    and "\<exists>c names. pathCache (plugin_state w') = (pathCache (plugin_state w))(dir \<mapsto> names) \<and>
           delivered w' = delivered w @ [(c, dir, names)]"
    and "phaseOf d (plugin_state w') = (if d = dir then Some Finished else phaseOf d (plugin_state w))"
    and "readdirLog w' = readdirLog w"
    and "fsOperations (plugin_state w') = fsOperations (plugin_state w)"
proof -
  from assms obtain c m where h: "holderIn Reading dir (plugin_state w) = Some (c, m)"
    by (auto simp: Let_def split: option.splits)
  obtain names s' where cb: "readdirCallback rt dir res (plugin_state w) = (names, s')"
    by (cases "readdirCallback rt dir res (plugin_state w)")
  from assms h cb have w':
    "w' = w\<lparr>plugin_state := setMutex dir (m\<lparr>holder := Some (c, Finished)\<rparr>) s',
              delivered := delivered w @ [(c, dir, names)]\<rparr>"
    by (simp add: Let_def)
  note f = readdirCallback_fields [OF cb]
  show "phaseOf dir (plugin_state w) = Some Reading"
    using h by (rule holderIn_phaseOf)
  show "\<exists>c names. pathCache (plugin_state w') = (pathCache (plugin_state w))(dir \<mapsto> names) \<and>
           delivered w' = delivered w @ [(c, dir, names)]"
    using f by (simp add: w')
  show "phaseOf d (plugin_state w') = (if d = dir then Some Finished else phaseOf d (plugin_state w))"
    using phaseOf_cong [of s' "plugin_state w" d] f by (simp add: w')
  show "readdirLog w' = readdirLog w"
    by (simp add: w')
  show "fsOperations (plugin_state w') = fsOperations (plugin_state w)"
    using f by (simp add: w')
qed

lemma step_Release_effect:
  assumes "step rt (Release dir) w = Some w'"
  shows "pathCache (plugin_state w') = pathCache (plugin_state w)"
    and "phaseOf dir (plugin_state w) = Some Finished"
    and "(phaseOf d (plugin_state w') = Some Reading) = (phaseOf d (plugin_state w) = Some Reading)"
    and "readdirLog w' = readdirLog w"
    and "fsOperations (plugin_state w') = fsOperations (plugin_state w)"
    and "delivered w' = delivered w"
proof -
  from assms obtain c m where h: "holderIn Finished dir (plugin_state w) = Some (c, m)"
    and w': "w' = w\<lparr>plugin_state := setMutex dir (release m) (plugin_state w)\<rparr>"
    by (auto simp: Let_def split: option.splits)
  show fin: "phaseOf dir (plugin_state w) = Some Finished"
    using h by (rule holderIn_phaseOf)
  show "(phaseOf d (plugin_state w') = Some Reading) = (phaseOf d (plugin_state w) = Some Reading)"
    using fin phase_release [of m] by (simp add: w')
  show "pathCache (plugin_state w') = pathCache (plugin_state w)"
    by (simp add: w')
  show "readdirLog w' = readdirLog w"
    by (simp add: w')
  show "fsOperations (plugin_state w') = fsOperations (plugin_state w)"
    by (simp add: w')
  show "delivered w' = delivered w"
    by (simp add: w')
qed

lemma pendingAt_setMutex [simp]:
  "pendingAt d (setMutex dir m s) = (if d = dir then pendingOf m else pendingAt d s)"
  by (simp add: pendingAt_def setMutex_def)

lemma pendingAt_ensureMutex [simp]: "pendingAt d (ensureMutex dir s) = pendingAt d s"
  by (auto simp: pendingAt_def ensureMutex_def newMutex_def pendingOf_def)

lemma pendingAt_fsOperations [simp]: "pendingAt d (s\<lparr>fsOperations := n\<rparr>) = pendingAt d s"
  by (simp add: pendingAt_def)

lemma pendingAt_cong:
  "visitedPathMutexRecord s' = visitedPathMutexRecord s \<Longrightarrow> pendingAt d s' = pendingAt d s"
  by (simp add: pendingAt_def)

lemma holderIn_D:
  "holderIn ph dir s = Some (c, m) \<Longrightarrow>
     visitedPathMutexRecord s dir = Some m \<and> holder m = Some (c, ph)"
  by (auto simp: holderIn_def split: option.splits if_splits)

lemma holderIn_pendingAt:
  "holderIn ph dir s = Some (c, m) \<Longrightarrow>
     pendingAt dir s = (if ph = Finished then [] else [c]) @ waiters m"
  by (auto simp: pendingAt_def pendingOf_def dest!: holderIn_D)

text \<open>What each event does to the queue of a directory and to the callbacks invoked.\<close>

lemma step_Call_pending:
  assumes "step rt (Call c dir) w = Some w'"
    and "phaseOf dir (plugin_state w) = None \<longrightarrow> pendingAt dir (plugin_state w) = []"
  shows "pendingAt d (plugin_state w') =
           pendingAt d (plugin_state w) @
             (if d = dir \<and> pathCache (plugin_state w) dir = None then [c] else [])"
    and "phaseOf d (plugin_state w') = None \<Longrightarrow> phaseOf d (plugin_state w) = None"
    and "pathCache (plugin_state w) dir = None \<Longrightarrow> \<exists>ph. phaseOf dir (plugin_state w') = Some ph"
proof -
  let ?s1 = "ensureMutex dir (plugin_state w)"
  have cached: "w' = w\<lparr>plugin_state := ?s1, delivered := delivered w @ [(c, dir, names)]\<rparr>"
    if "pathCache (plugin_state w) dir = Some names" for names
    using assms(1) that by (simp add: Let_def)
  have uncached: "\<exists>m. visitedPathMutexRecord ?s1 dir = Some m \<and>
      w' = w\<lparr>plugin_state := setMutex dir (acquire c m) ?s1\<rparr>"
    if "pathCache (plugin_state w) dir = None"
    using assms(1) that by (auto simp: Let_def split: option.splits)
  show "pendingAt d (plugin_state w') =
           pendingAt d (plugin_state w) @
             (if d = dir \<and> pathCache (plugin_state w) dir = None then [c] else [])"
  proof (cases "pathCache (plugin_state w) dir")
    case (Some names)
    then show ?thesis by (simp add: cached [OF Some])
  next
    case None
    from uncached [OF None] obtain m where m: "visitedPathMutexRecord ?s1 dir = Some m"
      and w': "w' = w\<lparr>plugin_state := setMutex dir (acquire c m) ?s1\<rparr>"
      by blast
    from m have p: "pendingAt dir ?s1 = pendingOf m"
      and ph: "phaseOf dir ?s1 = map_option snd (holder m)"
      by (simp_all add: pendingAt_def phaseOf_def)
    from assms(2) p ph have "holder m = None \<longrightarrow> waiters m = []"
      by (auto simp: pendingOf_def)
    then have "pendingOf (acquire c m) = pendingOf m @ [c]"
      by (auto simp: pendingOf_def acquire_def)
    with p None show ?thesis by (simp add: w')
  qed
  have acq: "\<exists>ph. map_option snd (holder (acquire c m)) = Some ph" for m
    by (auto simp: acquire_def)
  show "\<exists>ph. phaseOf dir (plugin_state w') = Some ph" if "pathCache (plugin_state w) dir = None"
  proof -
    from uncached [OF that] obtain m where
      w': "w' = w\<lparr>plugin_state := setMutex dir (acquire c m) ?s1\<rparr>"
      by blast
    from acq [of m] show ?thesis
      unfolding w' by simp
  qed
  show "phaseOf d (plugin_state w) = None" if n: "phaseOf d (plugin_state w') = None"
  proof (cases "pathCache (plugin_state w) dir")
    case (Some names)
    with n show ?thesis by (simp add: cached [OF Some])
  next
    case None
    from uncached [OF None] obtain m where
      w': "w' = w\<lparr>plugin_state := setMutex dir (acquire c m) ?s1\<rparr>"
      by blast
    from acq [of m] n show ?thesis
      unfolding w' by (auto split: if_splits)
  qed
qed

lemma step_RunExclusive_pending:
  assumes "step rt (RunExclusive dir) w = Some w'"
  shows "\<exists>c ws. pendingAt dir (plugin_state w) = c # ws \<and>
           (case pathCache (plugin_state w) dir of
              None \<Rightarrow> pendingAt dir (plugin_state w') = c # ws \<and> delivered w' = delivered w
            | Some names \<Rightarrow> pendingAt dir (plugin_state w') = ws \<and>
                delivered w' = delivered w @ [(c, dir, names)])"
    and "d \<noteq> dir \<Longrightarrow> pendingAt d (plugin_state w') = pendingAt d (plugin_state w)"
proof -
  from assms obtain c m where h: "holderIn Acquired dir (plugin_state w) = Some (c, m)"
    by (auto simp: Let_def split: option.splits)
  from holderIn_pendingAt [OF h] have p: "pendingAt dir (plugin_state w) = c # waiters m"
    by simp
  show "\<exists>c ws. pendingAt dir (plugin_state w) = c # ws \<and>
           (case pathCache (plugin_state w) dir of
              None \<Rightarrow> pendingAt dir (plugin_state w') = c # ws \<and> delivered w' = delivered w
            | Some names \<Rightarrow> pendingAt dir (plugin_state w') = ws \<and>
                delivered w' = delivered w @ [(c, dir, names)])"
    using assms h p by (auto simp: Let_def pendingOf_def split: option.splits)
  show "pendingAt d (plugin_state w') = pendingAt d (plugin_state w)" if "d \<noteq> dir"
    using assms h that by (auto simp: Let_def split: option.splits)
qed

lemma step_ReaddirDone_pending:
  assumes "step rt (ReaddirDone dir res) w = Some w'"
  shows "\<exists>c ws names. pendingAt dir (plugin_state w) = c # ws \<and>
           pendingAt dir (plugin_state w') = ws \<and> delivered w' = delivered w @ [(c, dir, names)]"
    and "d \<noteq> dir \<Longrightarrow> pendingAt d (plugin_state w') = pendingAt d (plugin_state w)"
proof -
  from assms obtain c m where h: "holderIn Reading dir (plugin_state w) = Some (c, m)"
    by (auto simp: Let_def split: option.splits)
  obtain names s' where cb: "readdirCallback rt dir res (plugin_state w) = (names, s')"
    by (cases "readdirCallback rt dir res (plugin_state w)")
  from assms h cb have w':
    "w' = w\<lparr>plugin_state := setMutex dir (m\<lparr>holder := Some (c, Finished)\<rparr>) s',
              delivered := delivered w @ [(c, dir, names)]\<rparr>"
    by (simp add: Let_def)
  note f = readdirCallback_fields [OF cb]
  from holderIn_pendingAt [OF h] show "\<exists>c ws names. pendingAt dir (plugin_state w) = c # ws \<and>
           pendingAt dir (plugin_state w') = ws \<and> delivered w' = delivered w @ [(c, dir, names)]"
    by (simp add: w' pendingOf_def)
  show "pendingAt d (plugin_state w') = pendingAt d (plugin_state w)" if "d \<noteq> dir"
    using that pendingAt_cong [of s' "plugin_state w" d] f by (simp add: w')
qed

lemma pendingOf_release:
  "holder m = Some (c, Finished) \<Longrightarrow> pendingOf (release m) = pendingOf m"
  by (auto simp: pendingOf_def release_def split: list.splits)

lemma phase_release_None:
  "map_option snd (holder (release m)) = None \<Longrightarrow> pendingOf (release m) = []"
  by (auto simp: pendingOf_def release_def split: list.splits)

lemma step_Release_pending:
  assumes "step rt (Release dir) w = Some w'"
  shows "pendingAt d (plugin_state w') = pendingAt d (plugin_state w)"
    and "phaseOf d (plugin_state w') = None \<longrightarrow> d \<noteq> dir \<longrightarrow> phaseOf d (plugin_state w) = None"
    and "phaseOf dir (plugin_state w') = None \<longrightarrow> pendingAt dir (plugin_state w') = []"
proof -
  from assms obtain c m where h: "holderIn Finished dir (plugin_state w) = Some (c, m)"
    and w': "w' = w\<lparr>plugin_state := setMutex dir (release m) (plugin_state w)\<rparr>"
    by (auto simp: Let_def split: option.splits)
  from holderIn_D [OF h] have m: "visitedPathMutexRecord (plugin_state w) dir = Some m"
    and hm: "holder m = Some (c, Finished)" by simp_all
  from m have "pendingAt dir (plugin_state w) = pendingOf m"
    by (simp add: pendingAt_def)
  then show "pendingAt d (plugin_state w') = pendingAt d (plugin_state w)"
    using pendingOf_release [OF hm] by (simp add: w')
  show "phaseOf d (plugin_state w') = None \<longrightarrow> d \<noteq> dir \<longrightarrow> phaseOf d (plugin_state w) = None"
    by (simp add: w')
  show "phaseOf dir (plugin_state w') = None \<longrightarrow> pendingAt dir (plugin_state w') = []"
    using phase_release_None [of m] by (simp add: w')
qed

lemma step_passInv:
  assumes "step rt e w = Some w'" and "passInv w"
  shows "passInv w'"
proof (cases e)
  case (Call c dir)
  note st = assms(1) [unfolded Call]
  from assms(2) have g: "phaseOf dir (plugin_state w) = None \<longrightarrow> pendingAt dir (plugin_state w) = []"
    by (simp add: passInv_def)
  note eff = step_Call_effect [OF st] step_Call_pending(1) [OF st g]
  from assms(2) step_Call_pending(2,3) [OF st g] show ?thesis
    unfolding passInv_def eff
    by (auto split: option.splits)
next
  case (RunExclusive dir)
  note st = assms(1) [unfolded RunExclusive]
  note eff = step_RunExclusive_effect [OF st]
  from eff(6) obtain c where d: "delivered w' =
           delivered w @ (case pathCache (plugin_state w) dir of
                            None \<Rightarrow> [] | Some names \<Rightarrow> [(c, dir, names)])" ..
  from assms(2) eff(2) step_RunExclusive_pending(2) [OF st] show ?thesis
    unfolding passInv_def eff(1,3,4,5) d
    by (auto split: option.splits)
next
  case (ReaddirDone dir res)
  note st = assms(1) [unfolded ReaddirDone]
  note eff = step_ReaddirDone_effect [OF st]
  from eff(2) obtain c names where
    d: "pathCache (plugin_state w') = (pathCache (plugin_state w))(dir \<mapsto> names)"
       "delivered w' = delivered w @ [(c, dir, names)]" by blast
  from assms(2) eff(1) step_ReaddirDone_pending(2) [OF st] show ?thesis
    unfolding passInv_def eff(3,4,5) d
    by (auto split: option.splits)
next
  case (Release dir)
  note st = assms(1) [unfolded Release]
  note eff = step_Release_effect [OF st]
  note pend = step_Release_pending [OF st]
  have g: "phaseOf d (plugin_state w') = None \<longrightarrow> pendingAt d (plugin_state w') = []" for d
  proof (cases "d = dir")
    case True
    with pend(3) show ?thesis by simp
  next
    case False
    with pend(2) [of d] assms(2) show ?thesis
      by (simp add: passInv_def pend(1))
  qed
  from assms(2) g show ?thesis
    unfolding passInv_def eff
    by simp
qed

lemma run_passInv: "run rt es w = Some w' \<Longrightarrow> passInv w \<Longrightarrow> passInv w'"
  by (induction es arbitrary: w) (auto split: option.splits dest: step_passInv)

lemma step_keeps_track:
  assumes "step rt e w = Some w'"
    and "(\<exists>names. (c, d, names) \<in> set (delivered w)) \<or> c \<in> set (pendingAt d (plugin_state w))"
    and "phaseOf d (plugin_state w) = None \<longrightarrow> pendingAt d (plugin_state w) = []"
  shows "(\<exists>names. (c, d, names) \<in> set (delivered w')) \<or> c \<in> set (pendingAt d (plugin_state w'))"
proof (cases e)
  case (Call c' dir)
  note st = assms(1) [unfolded Call]
  have "phaseOf dir (plugin_state w) = None \<longrightarrow> pendingAt dir (plugin_state w) = []"
    if "d = dir"
    using that assms(3) by simp
  then show ?thesis
  proof (cases "d = dir")
    case True
    with assms(3) have g: "phaseOf dir (plugin_state w) = None \<longrightarrow> pendingAt dir (plugin_state w) = []"
      by simp
    from assms(2) show ?thesis
      by (auto simp: step_Call_effect(5) [OF st] step_Call_pending(1) [OF st g])
  next
    case False
    have "pendingAt d (plugin_state w') = pendingAt d (plugin_state w)"
      using st False by (auto simp: Let_def split: option.splits)
    with assms(2) show ?thesis
      by (auto simp: step_Call_effect(5) [OF st])
  qed
next
  case (RunExclusive dir)
  note st = assms(1) [unfolded RunExclusive]
  from step_RunExclusive_pending(1) [OF st] step_RunExclusive_pending(2) [OF st, of d] assms(2)
  show ?thesis
    by (cases "d = dir") (auto split: option.splits)
next
  case (ReaddirDone dir res)
  note st = assms(1) [unfolded ReaddirDone]
  from step_ReaddirDone_pending(1) [OF st] step_ReaddirDone_pending(2) [OF st, of d] assms(2)
  show ?thesis
    by (cases "d = dir") auto
next
  case (Release dir)
  note st = assms(1) [unfolded Release]
  from assms(2) show ?thesis
    by (simp add: step_Release_pending(1) [OF st] step_Release_effect(6) [OF st])
qed

lemma step_Call_tracks:
  assumes "step rt (Call c d) w = Some w'"
    and "phaseOf d (plugin_state w) = None \<longrightarrow> pendingAt d (plugin_state w) = []"
  shows "(\<exists>names. (c, d, names) \<in> set (delivered w')) \<or> c \<in> set (pendingAt d (plugin_state w'))"
  by (cases "pathCache (plugin_state w) d")
     (auto simp: step_Call_effect(5) [OF assms(1)] step_Call_pending(1) [OF assms])

lemma passInv_queue:
  "passInv w \<Longrightarrow> phaseOf d (plugin_state w) = None \<longrightarrow> pendingAt d (plugin_state w) = []"
  by (simp add: passInv_def)

lemma run_keeps_track:
  "run rt es w = Some w' \<Longrightarrow> passInv w \<Longrightarrow>
   (\<exists>names. (c, d, names) \<in> set (delivered w)) \<or> c \<in> set (pendingAt d (plugin_state w)) \<Longrightarrow>
   (\<exists>names. (c, d, names) \<in> set (delivered w')) \<or> c \<in> set (pendingAt d (plugin_state w'))"
proof (induction es arbitrary: w)
  case Nil
  then show ?case by simp
next
  case (Cons e es)
  from Cons.prems(1) obtain w1 where st: "step rt e w = Some w1" and r: "run rt es w1 = Some w'"
    by (auto split: option.splits)
  show ?case
    by (rule Cons.IH [OF r step_passInv [OF st Cons.prems(2)]
          step_keeps_track [OF st Cons.prems(3) passInv_queue [OF Cons.prems(2)]]])
qed

lemma run_tracks:
  "run rt es w = Some w' \<Longrightarrow> passInv w \<Longrightarrow> Call c d \<in> set es \<Longrightarrow>
   (\<exists>names. (c, d, names) \<in> set (delivered w')) \<or> c \<in> set (pendingAt d (plugin_state w'))"
proof (induction es arbitrary: w)
  case Nil
  then show ?case by simp
next
  case (Cons e es)
  from Cons.prems(1) obtain w1 where st: "step rt e w = Some w1" and r: "run rt es w1 = Some w'"
    by (auto split: option.splits)
  note inv1 = step_passInv [OF st Cons.prems(2)]
  show ?case
  proof (cases "e = Call c d")
    case True
    from step_Call_tracks [OF st [unfolded True] passInv_queue [OF Cons.prems(2)]]
    show ?thesis by (rule run_keeps_track [OF r inv1])
  next
    case False
    with Cons.prems(3) have "Call c d \<in> set es" by simp
    with r inv1 show ?thesis by (rule Cons.IH)
  qed
qed

lemma pending_enabled:
  assumes "passInv w" and "pendingAt D (plugin_state w) \<noteq> []"
  shows "step rt (RunExclusive D) w \<noteq> None \<or> (\<forall>res. step rt (ReaddirDone D res) w \<noteq> None) \<or>
         step rt (Release D) w \<noteq> None"
proof -
  from assms passInv_queue [OF assms(1), of D] obtain ph where "phaseOf D (plugin_state w) = Some ph"
    by auto
  then obtain m c where h: "holderIn ph D (plugin_state w) = Some (c, m)"
    by (auto simp: phaseOf_def holderIn_def split: option.splits)
  show ?thesis
    using h by (cases ph) (auto simp: Let_def split: prod.splits option.splits)
qed

lemma step_cache_mono:
  assumes "step rt e w = Some w'" and "passInv w" and "pathCache (plugin_state w) D = Some names"
  shows "pathCache (plugin_state w') D = Some names"
proof (cases e)
  case (Call c dir)
  from step_Call_effect(1) [OF assms(1) [unfolded Call]] assms(3) show ?thesis by simp
next
  case (RunExclusive dir)
  from step_RunExclusive_effect(1) [OF assms(1) [unfolded RunExclusive]] assms(3)
  show ?thesis by simp
next
  case (ReaddirDone dir res)
  note st = assms(1) [unfolded ReaddirDone]
  from step_ReaddirDone_effect(1) [OF st] assms(2) have "pathCache (plugin_state w) dir = None"
    by (simp add: passInv_def)
  with assms(3) have "D \<noteq> dir" by auto
  with step_ReaddirDone_effect(2) [OF st] assms(3) show ?thesis by auto
next
  case (Release dir)
  from step_Release_effect(1) [OF assms(1) [unfolded Release]] assms(3) show ?thesis by simp
qed

lemma run_cache_mono:
  "run rt es w = Some w' \<Longrightarrow> passInv w \<Longrightarrow> pathCache (plugin_state w) D = Some names \<Longrightarrow>
   pathCache (plugin_state w') D = Some names"
proof (induction es arbitrary: w)
  case Nil
  then show ?case by simp
next
  case (Cons e es)
  from Cons.prems(1) obtain w1 where st: "step rt e w = Some w1" and r: "run rt es w1 = Some w'"
    by (auto split: option.splits)
  from r step_passInv [OF st Cons.prems(2)] step_cache_mono [OF st Cons.prems(2,3)]
  show ?case by (rule Cons.IH)
qed

lemma passInv_count:
  "passInv w \<Longrightarrow> count_list (readdirLog w) d =
     (if pathCache (plugin_state w) d \<noteq> None \<or> phaseOf d (plugin_state w) = Some Reading then 1 else 0)"
  by (simp add: passInv_def)

lemma passInv_delivered:
  "passInv w \<Longrightarrow> (c, d, names) \<in> set (delivered w) \<Longrightarrow> pathCache (plugin_state w) d = Some names"
  by (simp add: passInv_def)

section \<open>Progress of the queue\<close>

lemma workAt_setMutex [simp]:
  "workAt d (setMutex dir m s) = (if d = dir then workOf m else workAt d s)"
  by (simp add: workAt_def setMutex_def)

lemma workAt_fsOperations [simp]: "workAt d (s\<lparr>fsOperations := n\<rparr>) = workAt d s"
  by (simp add: workAt_def)

lemma workAt_cong:
  "visitedPathMutexRecord s' = visitedPathMutexRecord s \<Longrightarrow> workAt d s' = workAt d s"
  by (simp add: workAt_def)

lemma holderIn_workAt:
  "holderIn ph d s = Some (c, m) \<Longrightarrow> workAt d s = 3 * length (waiters m) + phaseWork ph"
  by (auto simp: workAt_def workOf_def dest!: holderIn_D)

lemma workOf_release:
  "workOf (release m) < 3 * length (waiters m) + 1"
  by (auto simp: workOf_def release_def split: list.splits)

lemma workOf_holder [simp]:
  "workOf (m\<lparr>holder := Some (c, ph)\<rparr>) = 3 * length (waiters m) + phaseWork ph"
  by (simp add: workOf_def)

lemma step_decreases_work:
  assumes "step rt e w = Some w'" and "eventOf d e"
  shows "workAt d (plugin_state w') < workAt d (plugin_state w)"
proof (cases e)
  case (Call c dir)
  with assms(2) show ?thesis by (simp add: eventOf_def)
next
  case (RunExclusive dir)
  with assms(2) have [simp]: "dir = d" by (simp add: eventOf_def)
  from assms(1) RunExclusive obtain c m where h: "holderIn Acquired d (plugin_state w) = Some (c, m)"
    by (auto simp: Let_def split: option.splits)
  from assms(1) RunExclusive h show ?thesis
    by (auto simp: Let_def holderIn_workAt [OF h] split: option.splits)
next
  case (ReaddirDone dir res)
  with assms(2) have [simp]: "dir = d" by (simp add: eventOf_def)
  from assms(1) ReaddirDone obtain c m where h: "holderIn Reading d (plugin_state w) = Some (c, m)"
    by (auto simp: Let_def split: option.splits)
  obtain names s' where cb: "readdirCallback rt d res (plugin_state w) = (names, s')"
    by (cases "readdirCallback rt d res (plugin_state w)")
  from assms(1) ReaddirDone h cb show ?thesis
    by (auto simp: Let_def holderIn_workAt [OF h])
next
  case (Release dir)
  with assms(2) have [simp]: "dir = d" by (simp add: eventOf_def)
  from assms(1) Release obtain c m where h: "holderIn Finished d (plugin_state w) = Some (c, m)"
    by (auto simp: Let_def split: option.splits)
  from assms(1) Release h have "w' = w\<lparr>plugin_state := setMutex d (release m) (plugin_state w)\<rparr>"
    by (simp add: Let_def)
  with workOf_release [of m] show ?thesis
    by (simp add: holderIn_workAt [OF h])
qed

lemma run_bounded_by_work:
  "run rt es w = Some w' \<Longrightarrow> \<forall>e\<in>set es. eventOf d e \<Longrightarrow>
   length es + workAt d (plugin_state w') \<le> workAt d (plugin_state w)"
proof (induction es arbitrary: w)
  case Nil
  then show ?case by simp
next
  case (Cons e es)
  from Cons.prems(1) obtain w1 where st: "step rt e w = Some w1" and r: "run rt es w1 = Some w'"
    by (auto split: option.splits)
  from Cons.prems(2) have "eventOf d e" "\<forall>e\<in>set es. eventOf d e" by simp_all
  with step_decreases_work [OF st] Cons.IH [OF r] show ?case by fastforce
qed

lemma pending_enabled_event:
  assumes "passInv w" and "pendingAt D (plugin_state w) \<noteq> []"
  shows "\<exists>e w1. eventOf D e \<and> step rt e w = Some w1"
proof -
  from pending_enabled [OF assms, of rt]
  consider w1 where "step rt (RunExclusive D) w = Some w1"
    | w1 where "step rt (ReaddirDone D ReaddirError) w = Some w1"
    | w1 where "step rt (Release D) w = Some w1"
    by blast
  then show ?thesis
  proof cases
    case 1
    have "eventOf D (RunExclusive D)" by (simp add: eventOf_def)
    with 1 show ?thesis by blast
  next
    case 2
    have "eventOf D (ReaddirDone D ReaddirError)" by (simp add: eventOf_def)
    with 2 show ?thesis by blast
  next
    case 3
    have "eventOf D (Release D)" by (simp add: eventOf_def)
    with 3 show ?thesis by blast
  qed
qed

lemma queue_drains:
  "passInv w \<Longrightarrow>
   \<exists>es w'. (\<forall>e\<in>set es. eventOf D e) \<and> run rt es w = Some w' \<and>
     pendingAt D (plugin_state w') = []"
proof (induction "workAt D (plugin_state w)" arbitrary: w rule: less_induct)
  case less
  show ?case
  proof (cases "pendingAt D (plugin_state w) = []")
    case True
    then have "(\<forall>e\<in>set []. eventOf D e) \<and> run rt [] w = Some w \<and> pendingAt D (plugin_state w) = []"
      by simp
    then show ?thesis by blast
  next
    case False
    from pending_enabled_event [OF less.prems False, of rt] obtain e w1 where
      e: "eventOf D e" and st: "step rt e w = Some w1" by blast
    from step_decreases_work [OF st e] step_passInv [OF st less.prems]
    obtain es w' where es: "\<forall>e\<in>set es. eventOf D e" "run rt es w1 = Some w'"
      "pendingAt D (plugin_state w') = []"
      using less.hyps by blast
    from e es st have "(\<forall>e\<in>set (e # es). eventOf D e) \<and> run rt (e # es) w = Some w' \<and>
      pendingAt D (plugin_state w') = []"
      by simp
    then show ?thesis by blast
  qed
qed

lemma all_callers_served:
  assumes "run rt evs (newPass s) = Some w"
  shows "\<exists>es w'. (\<forall>e\<in>set es. eventOf D e) \<and> run rt es w = Some w' \<and>
     (\<forall>c. Call c D \<in> set evs \<longrightarrow>
        (\<exists>names. (c, D, names) \<in> set (delivered w') \<and> pathCache (plugin_state w') D = Some names))"
proof -
  note inv = run_passInv [OF assms passInv_newPass]
  from queue_drains [OF inv, of D rt] obtain es w' where
    es: "\<forall>e\<in>set es. eventOf D e" "run rt es w = Some w'" "pendingAt D (plugin_state w') = []"
    by blast
  note inv' = run_passInv [OF es(2) inv]
  have "\<exists>names. (c, D, names) \<in> set (delivered w') \<and> pathCache (plugin_state w') D = Some names"
    if "Call c D \<in> set evs" for c
  proof -
    from run_tracks [OF assms passInv_newPass that]
    have "(\<exists>names. (c, D, names) \<in> set (delivered w)) \<or> c \<in> set (pendingAt D (plugin_state w))" .
    from run_keeps_track [OF es(2) inv this] es(3)
    obtain names where "(c, D, names) \<in> set (delivered w')" by auto
    with passInv_delivered [OF inv'] show ?thesis by blast
  qed
  with es show ?thesis by blast
qed

section \<open>A call run on its own\<close>

lemma ensureMutex_idem: "visitedPathMutexRecord s D \<noteq> None \<Longrightarrow> ensureMutex D s = s"
  by (auto simp: ensureMutex_def)

lemma getFilenamesInDir_cached:
  "pathCache s D = Some names \<Longrightarrow> getFilenamesInDir rt D s = (names, ensureMutex D s)"
  by (simp add: getFilenamesInDir_def Let_def)

lemma getFilenamesInDir_uncached:
  "pathCache s D = None \<Longrightarrow>
   getFilenamesInDir rt D s =
     readdirCallback rt D (readdir rt D) ((ensureMutex D s)\<lparr>fsOperations := fsOperations s + 1\<rparr>)"
  by (simp add: getFilenamesInDir_def Let_def)

lemma fileExistsWithCase_atRoot: "atRoot p \<Longrightarrow> fileExistsWithCase rt p s = (None, s)"
  by (simp add: fileExistsWithCase.simps [of rt p s] atRoot_def Let_def)

lemma fileExistsWithCase_below:
  "\<not> atRoot p \<Longrightarrow> getFilenamesInDir rt (path_dirname p) s = (filenames, s') \<Longrightarrow>
   fileExistsWithCase rt p s =
     (if path_basename p \<notin> set filenames
      then (Some (correctFilename rt (path_basename p) filenames), s')
      else fileExistsWithCase rt (path_dirname p) s')"
  by (subst fileExistsWithCase.simps) (simp add: atRoot_def Let_def)

lemma atRoot_shorter: "\<not> atRoot p \<Longrightarrow> length (path_dirname p) < length p"
  by (rule path_dirname_shorter) (simp_all add: atRoot_def Let_def)

lemma atRoot_fixpoint: "path_dirname p = p \<Longrightarrow> atRoot p"
  using atRoot_shorter [of p] by auto

lemma atRoot_reached: "\<exists>n\<le>length p. atRoot ((path_dirname ^^ n) p)"
proof (induction "length p" arbitrary: p rule: less_induct)
  case less
  show ?case
  proof (cases "atRoot p")
    case True
    then have "atRoot ((path_dirname ^^ 0) p)" by simp
    then show ?thesis by blast
  next
    case False
    from atRoot_shorter [OF False] less obtain n where
      n: "n \<le> length (path_dirname p)" "atRoot ((path_dirname ^^ n) (path_dirname p))"
      by blast
    from n(2) have "atRoot ((path_dirname ^^ Suc n) p)"
      by (simp add: funpow_swap1)
    moreover from n(1) atRoot_shorter [OF False] have "Suc n \<le> length p" by simp
    ultimately show ?thesis by blast
  qed
qed

lemma fileExistsWithCase_bounded_enough:
  "length p < n \<Longrightarrow> fileExistsWithCase_bounded n rt p s = Some (fileExistsWithCase rt p s)"
proof (induction n arbitrary: p s)
  case 0
  then show ?case by simp
next
  case (Suc n)
  show ?case
  proof (cases "atRoot p")
    case True
    then show ?thesis
      by (simp add: fileExistsWithCase_atRoot) (simp add: atRoot_def Let_def)
  next
    case False
    obtain filenames s' where g: "getFilenamesInDir rt (path_dirname p) s = (filenames, s')"
      by (cases "getFilenamesInDir rt (path_dirname p) s")
    from atRoot_shorter [OF False] Suc.prems have "length (path_dirname p) < n" by simp
    then have "fileExistsWithCase_bounded n rt (path_dirname p) s' =
        Some (fileExistsWithCase rt (path_dirname p) s')"
      by (rule Suc.IH)
    with False g show ?thesis
      by (simp add: fileExistsWithCase_below [OF False g]) (simp add: atRoot_def Let_def)
  qed
qed

lemma getFilenamesInDir_is_cached:
  "getFilenamesInDir rt d s = (names, s') \<Longrightarrow> pathCache s' d = Some names"
  by (auto simp: getFilenamesInDir_def readdirCallback_def Let_def
      split: option.splits readdir_result.splits)

lemma free_mutex:
  assumes "phaseOf D s = None" and "pendingAt D s = []"
  shows "visitedPathMutexRecord s D = None \<or> visitedPathMutexRecord s D = Some newMutex"
proof (cases "visitedPathMutexRecord s D")
  case None
  then show ?thesis by simp
next
  case (Some m)
  with assms have "holder m = None" "waiters m = []"
    by (auto simp: phaseOf_def pendingAt_def pendingOf_def)
  then have "m = newMutex" by (simp add: newMutex_def)
  with Some show ?thesis by simp
qed

lemma ensureMutex_free:
  assumes "phaseOf D s = None" and "pendingAt D s = []"
  shows "visitedPathMutexRecord (ensureMutex D s) D = Some newMutex"
  using free_mutex [OF assms] by (auto simp: ensureMutex_def)

text \<open>
  A call that runs alone: when the mutex of \<open>D\<close> is free, the events of one call of
  \<open>getFilenamesInDir\<close>, with nothing in between, end in the state and with the names that
  \<open>getFilenamesInDir\<close> gives.
\<close>

lemma getFilenamesInDir_alone:
  assumes "phaseOf D (plugin_state w) = None" and "pendingAt D (plugin_state w) = []"
  shows "run rt (if pathCache (plugin_state w) D = None
                 then [Call c D, RunExclusive D, ReaddirDone D (readdir rt D), Release D]
                 else [Call c D]) w =
           Some (w\<lparr>plugin_state := snd (getFilenamesInDir rt D (plugin_state w)),
                    readdirLog := readdirLog w @ (if pathCache (plugin_state w) D = None then [D] else []),
                    delivered := delivered w @ [(c, D, fst (getFilenamesInDir rt D (plugin_state w)))]\<rparr>)"
proof (cases "pathCache (plugin_state w) D")
  case (Some names)
  then show ?thesis
    by (simp add: getFilenamesInDir_def Let_def)
next
  case None
  note m = ensureMutex_free [OF assms]
  show ?thesis
    using None m
    apply (simp add: getFilenamesInDir_def Let_def holderIn_def setMutex_def acquire_def newMutex_def
        release_def readdirCallback_def split: readdir_result.splits)
    apply (auto simp: ensureMutex_def newMutex_def fun_upd_idem_iff)
    done
qed

lemma getFilenamesInDir_after_reset:
  "getFilenamesInDir rt D (reset s) =
     (case readdir rt D of ReaddirError \<Rightarrow> [] | ReaddirFiles files \<Rightarrow> map (normalizeNFC rt) files,
      \<lparr>pathCache = [D \<mapsto> (case readdir rt D of ReaddirError \<Rightarrow> []
                                | ReaddirFiles files \<Rightarrow> map (normalizeNFC rt) files)],
       visitedPathMutexRecord = [D \<mapsto> newMutex],
       fsOperations = 1, \<dots> = plugin.more s\<rparr>)"
  by (simp add: getFilenamesInDir_def ensureMutex_def readdirCallback_def reset_def Let_def
      split: readdir_result.splits)

lemma step_Call_cached:
  assumes "pathCache (plugin_state w) D = Some names"
  shows "step rt (Call c D) w =
           Some (w\<lparr>plugin_state := ensureMutex D (plugin_state w),
                    delivered := delivered w @ [(c, D, names)]\<rparr>)"
  using assms by (simp add: Let_def)

section \<open>The verdict of one level\<close>

lemma mismatchValue_not_sentinel: "mismatchValue name \<noteq> str ''!nonexistent''"
  by (simp add: mismatchValue_def str_def)

lemma mismatchValue_not_empty: "mismatchValue name \<noteq> []"
  by (simp add: mismatchValue_def str_def)

lemma sentinel_distinct [simp]:
  "mismatchValue name \<noteq> str ''!nonexistent''" "str ''!nonexistent'' \<noteq> mismatchValue name"
  "mismatchValue name \<noteq> []" "[] \<noteq> mismatchValue name"
  "str ''!nonexistent'' \<noteq> []" "[] \<noteq> str ''!nonexistent''"
  by (simp_all add: mismatchValue_def str_def)

lemma correctFilename_no_match:
  "\<forall>f\<in>set filenames. toLowerCase rt f \<noteq> toLowerCase rt filename \<Longrightarrow>
   correctFilename rt filename filenames = str ''!nonexistent''"
  by (induction filenames) simp_all

lemma correctFilename_first_match:
  "i < length filenames \<Longrightarrow>
   toLowerCase rt (filenames ! i) = toLowerCase rt filename \<Longrightarrow>
   \<forall>j<i. toLowerCase rt (filenames ! j) \<noteq> toLowerCase rt filename \<Longrightarrow>
   correctFilename rt filename filenames = mismatchValue (filenames ! i)"
proof (induction filenames arbitrary: i)
  case Nil
  then show ?case by simp
next
  case (Cons f fs)
  show ?case
  proof (cases i)
    case 0
    with Cons.prems show ?thesis by (simp add: mismatchValue_def)
  next
    case (Suc k)
    with Cons.prems have "toLowerCase rt f \<noteq> toLowerCase rt filename" by auto
    moreover from Suc Cons.prems have "correctFilename rt filename fs = mismatchValue (fs ! k)"
      by (intro Cons.IH) auto
    ultimately show ?thesis using Suc by simp
  qed
qed

lemma correctFilename_cases:
  "correctFilename rt filename filenames = str ''!nonexistent'' \<or>
   (\<exists>f\<in>set filenames. toLowerCase rt f = toLowerCase rt filename \<and>
      correctFilename rt filename filenames = mismatchValue f)"
  by (induction filenames) (auto simp: mismatchValue_def)

lemma correctFilename_sentinel_iff:
  "(correctFilename rt filename filenames = str ''!nonexistent'') =
   (\<forall>f\<in>set filenames. toLowerCase rt f \<noteq> toLowerCase rt filename)"
  using mismatchValue_not_sentinel
  by (induction filenames) (auto simp: mismatchValue_def)

lemma fileExistsWithCase_result:
  "fst (fileExistsWithCase rt p s) = None \<or>
   fst (fileExistsWithCase rt p s) = Some (str ''!nonexistent'') \<or>
   (\<exists>name. fst (fileExistsWithCase rt p s) = Some (mismatchValue name))"
proof (induction rt p s rule: fileExistsWithCase.induct)
  case (1 rt filepath s)
  show ?case
  proof (cases "atRoot filepath")
    case True
    then show ?thesis by (simp add: fileExistsWithCase_atRoot)
  next
    case False
    obtain filenames s' where g: "getFilenamesInDir rt (path_dirname filepath) s = (filenames, s')"
      by (cases "getFilenamesInDir rt (path_dirname filepath) s")
    show ?thesis
    proof (cases "path_basename filepath \<in> set filenames")
      case True
      with False g "1.IH" [OF refl refl refl _ g [symmetric]] show ?thesis
        by (simp add: fileExistsWithCase_below [OF False g] atRoot_def Let_def)
    next
      case notin: False
      with correctFilename_cases [of rt "path_basename filepath" filenames] show ?thesis
        by (auto simp: fileExistsWithCase_below [OF False g])
    qed
  qed
qed

lemma mismatchValue_inject [simp]: "(mismatchValue a = mismatchValue b) = (a = b)"
  by (simp add: mismatchValue_def)

lemma fileExistsWithCase_names_entry:
  "fileExistsWithCase rt p s = (Some r, s') \<Longrightarrow>
   r = str ''!nonexistent'' \<or>
   (\<exists>d names f. pathCache s' d = Some names \<and> f \<in> set names \<and> r = mismatchValue f)"
proof (induction rt p s rule: fileExistsWithCase.induct)
  case (1 rt filepath s)
  show ?case
  proof (cases "atRoot filepath")
    case True
    with "1.prems" show ?thesis by (simp add: fileExistsWithCase_atRoot)
  next
    case False
    obtain filenames t where g: "getFilenamesInDir rt (path_dirname filepath) s = (filenames, t)"
      by (cases "getFilenamesInDir rt (path_dirname filepath) s")
    show ?thesis
    proof (cases "path_basename filepath \<in> set filenames")
      case True
      with "1.prems" have "fileExistsWithCase rt (path_dirname filepath) t = (Some r, s')"
        by (simp add: fileExistsWithCase_below [OF False g])
      with False True g "1.IH" [OF refl refl refl _ g [symmetric]] show ?thesis
        by (simp add: atRoot_def Let_def)
    next
      case notin: False
      with "1.prems" have r: "r = correctFilename rt (path_basename filepath) filenames" and "s' = t"
        by (simp_all add: fileExistsWithCase_below [OF False g])
      with getFilenamesInDir_is_cached [OF g]
        correctFilename_cases [of rt "path_basename filepath" filenames]
      show ?thesis by auto
    qed
  qed
qed

lemma checkFile_verdict:
  "fileExistsWithCase rt p s = (r, s') \<Longrightarrow>
   checkFile rt p createData s =
     (if r = None \<or> r = Some (str ''!nonexistent'') \<or> r = Some []
      then (if createData then Done_null else Done_null_data)
      else Done_error (str ''[CaseSensitivePathsPlugin] `'' @ p @
             str ''` does not match the corresponding path on disk '' @ toString r), s')"
  by (auto simp: checkFile_def truthy_def split: option.splits)

lemma checkFile_rejects_iff:
  "(\<exists>msg. fst (checkFile rt q createData t) = Done_error msg) =
   (\<exists>name. fst (fileExistsWithCase rt q t) = Some (mismatchValue name))"
proof -
  obtain r t' where r: "fileExistsWithCase rt q t = (r, t')"
    by (cases "fileExistsWithCase rt q t")
  from fileExistsWithCase_result [of rt q t] r show ?thesis
    by (auto simp: checkFile_verdict [OF r])
qed

lemma getFilenamesInDir_failure:
  assumes "readdir rt D = ReaddirError" and "pathCache s D = None"
  shows "getFilenamesInDir rt D s =
           ([], (ensureMutex D s)\<lparr>fsOperations := fsOperations s + 1,
                                  pathCache := (pathCache s)(D \<mapsto> [])\<rparr>)"
  using assms by (simp add: getFilenamesInDir_uncached readdirCallback_def)

lemma getFilenamesInDir_empty_dir:
  assumes "readdir rt D = ReaddirFiles []" and "pathCache s D = None"
  shows "getFilenamesInDir rt D s =
           ([], (ensureMutex D s)\<lparr>fsOperations := fsOperations s + 1,
                                  pathCache := (pathCache s)(D \<mapsto> [])\<rparr>)"
  using assms by (simp add: getFilenamesInDir_uncached readdirCallback_def)

lemma visitedPathMutexRecord_ensureMutex: "visitedPathMutexRecord (ensureMutex D s) D \<noteq> None"
  by (simp add: ensureMutex_def)

section \<open>\<open>cleanupPath\<close> and normalisation\<close>

lemma set_js_replace: "set (js_replace pat rep s) \<subseteq> set s \<union> set rep"
  by (induction s) (auto dest: in_set_dropD)

lemma cleanupPath_no_query: "63 \<notin> set (cleanupPath resourcePath)"
proof
  assume "63 \<in> set (cleanupPath resourcePath)"
  with set_js_replace [of "0 # str ''#''" "str ''#''" "takeWhile (\<lambda>c. c \<noteq> 63) resourcePath"]
  have "63 \<in> set (takeWhile (\<lambda>c. c \<noteq> 63) resourcePath) \<or> (63::16 word) \<in> set (str ''#'')"
    by (auto simp: cleanupPath_def)
  then show False
    by (auto simp: str_def dest: set_takeWhileD)
qed

lemma cleanupPath_strips_query:
  assumes "63 \<notin> set resourcePath"
  shows "cleanupPath (resourcePath @ 63 # query) = cleanupPath resourcePath"
proof -
  from assms have "takeWhile (\<lambda>c. c \<noteq> 63) (resourcePath @ 63 # query) =
      takeWhile (\<lambda>c. c \<noteq> 63) resourcePath"
    by (induction resourcePath) auto
  then show ?thesis
    unfolding cleanupPath_def by (rule arg_cong)
qed

lemma js_replace_absent:
  "0 \<notin> set s \<Longrightarrow> js_replace (0 # str ''#'') rep s = s"
  by (induction s) (auto simp: str_def)

lemma cleanupPath_plain:
  "63 \<notin> set resourcePath \<Longrightarrow> 0 \<notin> set resourcePath \<Longrightarrow> cleanupPath resourcePath = resourcePath"
proof -
  assume q: "63 \<notin> set resourcePath" and z: "0 \<notin> set resourcePath"
  from q have t: "takeWhile (\<lambda>c. c \<noteq> 63) resourcePath = resourcePath"
    by (induction resourcePath) auto
  show ?thesis
    unfolding cleanupPath_def t using z by (rule js_replace_absent)
qed

lemma js_replace_first:
  "0 \<notin> set a \<Longrightarrow> js_replace (0 # str ''#'') (str ''#'') (a @ 0 # str ''#'' @ b) = a @ str ''#'' @ b"
  by (induction a) (auto simp: str_def)

lemma onAfterResolve_path:
  "onAfterResolve rt resource createData s =
     checkFile rt (normalizeNFC rt (cleanupPath resource)) createData s"
  by (simp add: onAfterResolve_def Let_def)

lemma getFilenamesInDir_normalized:
  "pathCache s D = None \<Longrightarrow> readdir rt D = ReaddirFiles files \<Longrightarrow>
   fst (getFilenamesInDir rt D s) = map (normalizeNFC rt) files"
  by (simp add: getFilenamesInDir_uncached readdirCallback_def Let_def)

section \<open>The examples, evaluated\<close>

lemmas world_eval =
  exampleEvents_def newPass_def newPlugin_def reset_def exampleRuntime_def exampleFs_def
  ensureMutex_def newMutex_def setMutex_def acquire_def release_def holderIn_def
  readdirCallback_def Let_def str_def

lemma example_run:
  "\<exists>w. run exampleRuntime exampleEvents (newPass newPlugin) = Some w \<and>
       readdirLog w = [str ''/a/B''] \<and>
       delivered w = map (\<lambda>c. (c, str ''/a/B'', [str ''c.txt'', str ''Odd'', str ''C.TXT''])) [1, 2, 3, 4] \<and>
       pendingAt (str ''/a/B'') (plugin_state w) = []"
  by (simp add: world_eval pendingAt_def pendingOf_def)

lemmas path_eval =
  str_def slice_def path_dirname_def path_basename_def path_parse_def CHAR_FORWARD_SLASH_def
  atRoot_def Let_def

lemma example_atRoot:
  "\<not> atRoot (str ''/a/B/c.txt'')" "atRoot (str ''/a/B'')" "atRoot (str ''/a/b'')"
  "path_dirname (str ''/a/B/c.txt'') = str ''/a/B''"
  by (simp_all add: path_eval)

lemmas seq_eval =
  getFilenamesInDir_def ensureMutex_def newMutex_def readdirCallback_def newPlugin_def
  exampleRuntime_def exampleFs_def checkFile_def truthy_def toString_def asciiLower_def
  mismatchValue_def

lemma example_listing:
  "getFilenamesInDir exampleRuntime (str ''/a/B'') newPlugin =
     ([str ''c.txt'', str ''Odd'', str ''C.TXT''], cachedPlugin)"
  "fst (getFilenamesInDir exampleRuntime (str ''/a'') newPlugin) = [str ''B'']"
  by (simp_all add: cachedPlugin_def seq_eval str_def Let_def)

lemma example_paths:
  "path_dirname (str ''/a/B/C.txt'') = str ''/a/B''" "path_basename (str ''/a/B/C.txt'') = str ''C.txt''"
  "\<not> atRoot (str ''/a/B/C.txt'')"
  "path_dirname (str ''/a/b'') = str ''/a''" "path_basename (str ''/a/b'') = str ''b''"
  "path_dirname (str ''/a/zzz.txt'') = str ''/a''" "path_basename (str ''/a/zzz.txt'') = str ''zzz.txt''"
  "atRoot (str ''/a/zzz.txt'')"
  "path_dirname (str ''/a/B/zzz.txt'') = str ''/a/B''" "path_basename (str ''/a/B/zzz.txt'') = str ''zzz.txt''"
  "\<not> atRoot (str ''/a/B/zzz.txt'')"
  by (simp_all add: path_eval)

lemma example_odd:
  "path_dirname (str ''/a/B/Odd/!NONEXISTENT'') = str ''/a/B/Odd''"
  "path_basename (str ''/a/B/Odd/!NONEXISTENT'') = str ''!NONEXISTENT''"
  "\<not> atRoot (str ''/a/B/Odd/!NONEXISTENT'')"
  "fst (getFilenamesInDir exampleRuntime (str ''/a/B/Odd'') newPlugin) = [str ''!nonexistent'']"
  by (simp_all add: path_eval) (simp add: seq_eval str_def Let_def)

lemma example_gone:
  "readdir exampleRuntime (str ''/a/gone'') = ReaddirError"
  "pathCache newPlugin (str ''/a/gone'') = None"
  "path_dirname (str ''/a/gone/x.js'') = str ''/a/gone''"
  "\<not> atRoot (str ''/a/gone/x.js'')"
     apply (simp add: exampleRuntime_def exampleFs_def str_def)
    apply (simp add: newPlugin_def)
   apply (simp add: path_eval)
  apply (simp add: path_eval)
  done

lemma example_gone_run:
  "\<exists>w w1 w'. run exampleRuntime (take 2 goneEvents) (newPass newPlugin) = Some w \<and>
     step exampleRuntime (ReaddirDone (str ''/a/gone'') ReaddirError) w = Some w1 \<and>
     run exampleRuntime (drop 3 goneEvents) w1 = Some w' \<and>
     delivered w' = [(1, str ''/a/gone'', []), (2, str ''/a/gone'', [])] \<and>
     readdirLog w' = [str ''/a/gone'']"
  by (simp add: goneEvents_def world_eval)

lemma example_hash:
  "fst (fileExistsWithCase hashRuntime (str ''/w/a#1/b#2/X.JS'') newPlugin) = Some (str ''`x.js`.'')"
  "fst (fileExistsWithCase hashRuntime (str ''/w/a#1/b'' @ [0] @ str ''#2/X.JS'') newPlugin) =
     Some (str ''!nonexistent'')"
  by (simp_all add: fileExistsWithCase.simps path_eval seq_eval hashRuntime_def hashFs_def)

lemma example_spec_paths:
  "fst (fileExistsWithCase exampleRuntime (str ''/a/B/c.txt'') newPlugin) = None"
  "fst (fileExistsWithCase exampleRuntime (str ''/a/b/c.txt'') newPlugin) = None"
  by (simp_all add: fileExistsWithCase.simps path_eval seq_eval)

section \<open>The claims\<close>

text \<open>
  C1. Within a build pass, whatever the interleaving of the calls of
  \<open>getFilenamesInDir\<close> and of their continuations: \<open>fs.readdir\<close> is called at most once
  for a directory \<open>D\<close>; as soon as the callback of one caller has been invoked for \<open>D\<close>,
  it has been called exactly once, and what the caller received is the cache entry of
  \<open>D\<close>; every caller that asked for \<open>D\<close> has either been answered or is the holder of
  the mutex of \<open>D\<close> or queued behind it; as long as a caller is pending, an event of
  that mutex can happen, so the queue is never stuck; the events of that mutex alone can
  be continued until every caller that asked for \<open>D\<close> has received the cache entry of
  \<open>D\<close>; and no such continuation is longer than the work the mutex has left.
\<close>

theorem getFilenamesInDir_single_readdir:
  assumes "run rt evs (newPass s) = Some w"
  shows "count_list (readdirLog w) D \<le> 1 \<and>
         (\<forall>c names. (c, D, names) \<in> set (delivered w) \<longrightarrow>
            count_list (readdirLog w) D = 1 \<and> pathCache (plugin_state w) D = Some names) \<and>
         (\<forall>c. Call c D \<in> set evs \<longrightarrow>
            (\<exists>names. (c, D, names) \<in> set (delivered w)) \<or>
            c \<in> set (pendingAt D (plugin_state w))) \<and>
         (pendingAt D (plugin_state w) \<noteq> [] \<longrightarrow>
            step rt (RunExclusive D) w \<noteq> None \<or>
            (\<forall>res. step rt (ReaddirDone D res) w \<noteq> None) \<or>
            step rt (Release D) w \<noteq> None) \<and>
         (\<exists>es w'. (\<forall>e\<in>set es. eventOf D e) \<and> run rt es w = Some w' \<and>
            (\<forall>c. Call c D \<in> set evs \<longrightarrow>
               (\<exists>names. (c, D, names) \<in> set (delivered w') \<and>
                  pathCache (plugin_state w') D = Some names))) \<and>
         (\<forall>es w'. (\<forall>e\<in>set es. eventOf D e) \<and> run rt es w = Some w' \<longrightarrow>
            length es \<le> workAt D (plugin_state w))"
proof -
  note inv0 = passInv_newPass [of s]
  note inv = run_passInv [OF assms inv0]
  have "count_list (readdirLog w) D \<le> 1"
    by (simp add: passInv_count [OF inv])
  moreover have "count_list (readdirLog w) D = 1 \<and> pathCache (plugin_state w) D = Some names"
    if "(c, D, names) \<in> set (delivered w)" for c names
    using passInv_delivered [OF inv that] by (simp add: passInv_count [OF inv])
  moreover have "(\<exists>names. (c, D, names) \<in> set (delivered w)) \<or>
            c \<in> set (pendingAt D (plugin_state w))" if "Call c D \<in> set evs" for c
    using assms inv0 that by (rule run_tracks)
  moreover note pending_enabled [OF inv, of D rt]
  moreover note all_callers_served [OF assms, of D]
  moreover have "length es \<le> workAt D (plugin_state w)"
    if "(\<forall>e\<in>set es. eventOf D e) \<and> run rt es w = Some w'" for es w'
    using run_bounded_by_work [of rt es w w' D] that by simp
  ultimately show ?thesis by blast
qed

theorem getFilenamesInDir_single_readdir_witness:
  "\<exists>w. run exampleRuntime exampleEvents (newPass newPlugin) = Some w \<and>
       delivered w = map (\<lambda>c. (c, str ''/a/B'', [str ''c.txt'', str ''Odd'', str ''C.TXT''])) [1, 2, 3, 4] \<and>
       pendingAt (str ''/a/B'') (plugin_state w) = [] \<and>
       count_list (readdirLog w) (str ''/a/B'') = 1 \<and>
       pathCache (plugin_state w) (str ''/a/B'') = Some [str ''c.txt'', str ''Odd'', str ''C.TXT'']"
proof -
  from example_run obtain w where
    r: "run exampleRuntime exampleEvents (newPass newPlugin) = Some w" and
    d: "delivered w = map (\<lambda>c. (c, str ''/a/B'', [str ''c.txt'', str ''Odd'', str ''C.TXT''])) [1, 2, 3, 4]" and
    p: "pendingAt (str ''/a/B'') (plugin_state w) = []"
    by blast
  from d have m: "(1, str ''/a/B'', [str ''c.txt'', str ''Odd'', str ''C.TXT'']) \<in> set (delivered w)"
    by simp
  from getFilenamesInDir_single_readdir [OF r, of "str ''/a/B''"]
  have "\<forall>c names. (c, str ''/a/B'', names) \<in> set (delivered w) \<longrightarrow>
      count_list (readdirLog w) (str ''/a/B'') = 1 \<and>
      pathCache (plugin_state w) (str ''/a/B'') = Some names"
    by (elim conjE)
  with m have "count_list (readdirLog w) (str ''/a/B'') = 1 \<and>
      pathCache (plugin_state w) (str ''/a/B'') = Some [str ''c.txt'', str ''Odd'', str ''C.TXT'']"
    by blast
  with r d p show ?thesis
    by blast
qed

text \<open>
  C2. Once a directory \<open>D\<close> has a cache entry in a build pass, no later event of the
  pass changes or removes the entry, and \<open>fs.readdir\<close> is not called for \<open>D\<close> again. A
  call of \<open>getFilenamesInDir\<close> for \<open>D\<close> passes the stored names to its callback at once
  (line 84), and a caller that was queued at the mutex of \<open>D\<close> receives them when its
  turn comes (line 96), both without touching the cache or \<open>fsOperations\<close>; no callback
  of \<open>fs.readdir\<close> for \<open>D\<close> is outstanding that could overwrite the entry.
\<close>

theorem cache_entry_is_final:
  assumes "run rt evs (newPass s) = Some w"
    and "pathCache (plugin_state w) D = Some names"
    and "run rt evs' w = Some w'"
  shows "pathCache (plugin_state w') D = Some names \<and>
         count_list (readdirLog w') D = count_list (readdirLog w) D \<and>
         (\<exists>w''. step rt (Call c D) w' = Some w'' \<and>
            delivered w'' = delivered w' @ [(c, D, names)] \<and>
            readdirLog w'' = readdirLog w' \<and>
            pathCache (plugin_state w'') = pathCache (plugin_state w') \<and>
            fsOperations (plugin_state w'') = fsOperations (plugin_state w')) \<and>
         (\<forall>w''. step rt (RunExclusive D) w' = Some w'' \<longrightarrow>
            (\<exists>c'. delivered w'' = delivered w' @ [(c', D, names)]) \<and>
            readdirLog w'' = readdirLog w' \<and>
            pathCache (plugin_state w'') = pathCache (plugin_state w') \<and>
            fsOperations (plugin_state w'') = fsOperations (plugin_state w')) \<and>
         (\<forall>res. step rt (ReaddirDone D res) w' = None)"
proof -
  note inv = run_passInv [OF assms(1) passInv_newPass]
  note inv' = run_passInv [OF assms(3) inv]
  note cached = run_cache_mono [OF assms(3) inv assms(2)]
  have "count_list (readdirLog w') D = count_list (readdirLog w) D"
    using assms(2) cached by (simp add: passInv_count [OF inv] passInv_count [OF inv'])
  moreover have "\<exists>w''. step rt (Call c D) w' = Some w'' \<and>
            delivered w'' = delivered w' @ [(c, D, names)] \<and>
            readdirLog w'' = readdirLog w' \<and>
            pathCache (plugin_state w'') = pathCache (plugin_state w') \<and>
            fsOperations (plugin_state w'') = fsOperations (plugin_state w')"
    unfolding step_Call_cached [OF cached] by simp
  moreover have "(\<exists>c'. delivered w'' = delivered w' @ [(c', D, names)]) \<and>
            readdirLog w'' = readdirLog w' \<and>
            pathCache (plugin_state w'') = pathCache (plugin_state w') \<and>
            fsOperations (plugin_state w'') = fsOperations (plugin_state w')"
    if "step rt (RunExclusive D) w' = Some w''" for w''
    using step_RunExclusive_effect(1,4,5,6) [OF that] cached by simp
  moreover have "step rt (ReaddirDone D res) w' = None" for res
  proof (rule ccontr)
    assume "step rt (ReaddirDone D res) w' \<noteq> None"
    then obtain w'' where "step rt (ReaddirDone D res) w' = Some w''" by blast
    from step_ReaddirDone_effect(1) [OF this] inv' cached show False
      by (simp add: passInv_def)
  qed
  ultimately show ?thesis using cached by blast
qed

theorem cache_entry_is_final_witness:
  "\<exists>w w'. run exampleRuntime (take 5 exampleEvents) (newPass newPlugin) = Some w \<and>
     pathCache (plugin_state w) (str ''/a/B'') = Some [str ''c.txt'', str ''Odd'', str ''C.TXT''] \<and>
     run exampleRuntime (drop 5 exampleEvents) w = Some w' \<and>
     pathCache (plugin_state w') (str ''/a/B'') = Some [str ''c.txt'', str ''Odd'', str ''C.TXT''] \<and>
     count_list (readdirLog w') (str ''/a/B'') = count_list (readdirLog w) (str ''/a/B'') \<and>
     step exampleRuntime (ReaddirDone (str ''/a/B'') ReaddirError) w' = None"
proof -
  have "\<exists>w. run exampleRuntime (take 5 exampleEvents) (newPass newPlugin) = Some w \<and>
     pathCache (plugin_state w) (str ''/a/B'') = Some [str ''c.txt'', str ''Odd'', str ''C.TXT''] \<and>
     (\<exists>w'. run exampleRuntime (drop 5 exampleEvents) w = Some w')"
    by (simp add: world_eval)
  then obtain w w' where
    r: "run exampleRuntime (take 5 exampleEvents) (newPass newPlugin) = Some w" and
    c: "pathCache (plugin_state w) (str ''/a/B'') = Some [str ''c.txt'', str ''Odd'', str ''C.TXT'']" and
    r': "run exampleRuntime (drop 5 exampleEvents) w = Some w'"
    by blast
  from cache_entry_is_final [OF r c r', of 0] r c r' show ?thesis
    by blast
qed

text \<open>
  C3, amended. When \<open>fileExistsWithCase\<close> is called on a path for which it does not stop
  at the root check (the parent of the path's directory is not its root, and the
  directory is not \<open>.\<close>), and the basename is not among the names listed for the
  directory while some listed name equals it up to case, the value passed on is the
  first such name in listing order, between backticks and followed by a period. The
  claim as stated leaves out the root check, which comes first.
\<close>

theorem mismatch_reports_first_match:
  assumes "\<not> atRoot p"
    and "getFilenamesInDir rt (path_dirname p) s = (filenames, s')"
    and "path_basename p \<notin> set filenames"
    and "i < length filenames"
    and "toLowerCase rt (filenames ! i) = toLowerCase rt (path_basename p)"
    and "\<forall>j<i. toLowerCase rt (filenames ! j) \<noteq> toLowerCase rt (path_basename p)"
  shows "fileExistsWithCase rt p s = (Some (str ''`'' @ filenames ! i @ str ''`.''), s')"
  using assms(3) correctFilename_first_match [OF assms(4,5,6)]
  by (simp add: fileExistsWithCase_below [OF assms(1,2)] mismatchValue_def)

theorem mismatch_reports_first_match_witness:
  "\<not> atRoot (str ''/a/B/C.txt'') \<and>
   getFilenamesInDir exampleRuntime (path_dirname (str ''/a/B/C.txt'')) newPlugin =
     ([str ''c.txt'', str ''Odd'', str ''C.TXT''], cachedPlugin) \<and>
   path_basename (str ''/a/B/C.txt'') \<notin> set [str ''c.txt'', str ''Odd'', str ''C.TXT''] \<and>
   toLowerCase exampleRuntime (str ''c.txt'') = toLowerCase exampleRuntime (path_basename (str ''/a/B/C.txt'')) \<and>
   toLowerCase exampleRuntime (str ''C.TXT'') = toLowerCase exampleRuntime (path_basename (str ''/a/B/C.txt'')) \<and>
   fileExistsWithCase exampleRuntime (str ''/a/B/C.txt'') newPlugin = (Some (str ''`c.txt`.''), cachedPlugin)"
proof -
  let ?fs = "[str ''c.txt'', str ''Odd'', str ''C.TXT'']"
  have g: "getFilenamesInDir exampleRuntime (path_dirname (str ''/a/B/C.txt'')) newPlugin = (?fs, cachedPlugin)"
    by (simp add: example_paths example_listing)
  have n: "path_basename (str ''/a/B/C.txt'') \<notin> set ?fs"
    by (simp add: example_paths) (simp add: str_def)
  have i: "(0::nat) < length ?fs" by simp
  have l: "toLowerCase exampleRuntime (?fs ! 0) = toLowerCase exampleRuntime (path_basename (str ''/a/B/C.txt''))"
    by (simp add: example_paths) (simp add: exampleRuntime_def asciiLower_def str_def)
  have l2: "toLowerCase exampleRuntime (str ''C.TXT'') = toLowerCase exampleRuntime (path_basename (str ''/a/B/C.txt''))"
    by (simp add: example_paths) (simp add: exampleRuntime_def asciiLower_def str_def)
  have f: "\<forall>j<0::nat. toLowerCase exampleRuntime (?fs ! j) \<noteq> toLowerCase exampleRuntime (path_basename (str ''/a/B/C.txt''))"
    by simp
  from mismatch_reports_first_match [OF example_paths(3) g n i l f]
  have "fileExistsWithCase exampleRuntime (str ''/a/B/C.txt'') newPlugin = (Some (str ''`c.txt`.''), cachedPlugin)"
    by (simp add: str_def)
  with example_paths(3) g n l l2 show ?thesis by simp
qed

text \<open>
  C3 as stated fails on \<open>/a/b\<close>: the directory \<open>/a\<close> lists \<open>B\<close> and not \<open>b\<close>, but the parent
  of \<open>/a\<close> is the root, so the call returns at the root check, passes on nothing, and
  leaves the state as it was: \<open>/a\<close> is not even listed. The same happens when the walk
  comes to \<open>/a/b\<close> from \<open>/a/b/c.txt\<close>.
\<close>

theorem mismatch_at_first_level_counterexample:
  "path_basename (str ''/a/b'') \<notin> set (fst (getFilenamesInDir exampleRuntime (path_dirname (str ''/a/b'')) newPlugin)) \<and>
   str ''B'' \<in> set (fst (getFilenamesInDir exampleRuntime (path_dirname (str ''/a/b'')) newPlugin)) \<and>
   toLowerCase exampleRuntime (str ''B'') = toLowerCase exampleRuntime (path_basename (str ''/a/b'')) \<and>
   fileExistsWithCase exampleRuntime (str ''/a/b'') newPlugin = (None, newPlugin) \<and>
   fst (fileExistsWithCase exampleRuntime (str ''/a/b/c.txt'') newPlugin) = None"
proof -
  have "fileExistsWithCase exampleRuntime (str ''/a/b'') newPlugin = (None, newPlugin)"
    by (rule fileExistsWithCase_atRoot) (rule example_atRoot)
  moreover have "str ''b'' \<noteq> str ''B''"
    by (simp add: str_def)
  moreover have "toLowerCase exampleRuntime (str ''B'') = toLowerCase exampleRuntime (str ''b'')"
    by (simp add: exampleRuntime_def asciiLower_def str_def)
  ultimately show ?thesis
    by (simp add: example_paths example_listing example_spec_paths)
qed

text \<open>
  C4, amended. When \<open>fileExistsWithCase\<close> is called on a path for which it does not stop
  at the root check, and no name listed for the path's directory equals the basename up
  to case, the value passed on is \<open>!nonexistent\<close>, which no mismatch value equals, and
  \<open>checkFile\<close> calls \<open>done\<close> without an error; \<open>checkFile\<close> calls \<open>done\<close> with an error
  exactly when the value is a mismatch value. The claim as stated leaves out the root
  check.
\<close>

theorem nonexistent_is_not_mismatch:
  assumes "\<not> atRoot p"
    and "getFilenamesInDir rt (path_dirname p) s = (filenames, s')"
    and "\<forall>f\<in>set filenames. toLowerCase rt f \<noteq> toLowerCase rt (path_basename p)"
  shows "fileExistsWithCase rt p s = (Some (str ''!nonexistent''), s') \<and>
         (\<forall>name. str ''!nonexistent'' \<noteq> str ''`'' @ name @ str ''`.'') \<and>
         checkFile rt p createData s = (if createData then Done_null else Done_null_data, s') \<and>
         (\<forall>q t. (\<exists>msg. fst (checkFile rt q createData t) = Done_error msg) =
                (\<exists>name. fst (fileExistsWithCase rt q t) = Some (str ''`'' @ name @ str ''`.'')))"
proof -
  from assms(3) have "path_basename p \<notin> set filenames" by auto
  with correctFilename_no_match [OF assms(3)]
  have r: "fileExistsWithCase rt p s = (Some (str ''!nonexistent''), s')"
    by (simp add: fileExistsWithCase_below [OF assms(1,2)])
  moreover have "str ''!nonexistent'' \<noteq> str ''`'' @ name @ str ''`.''" for name
    using mismatchValue_not_sentinel [of name] by (simp add: mismatchValue_def)
  moreover have "checkFile rt p createData s = (if createData then Done_null else Done_null_data, s')"
    by (simp add: checkFile_verdict [OF r])
  moreover note checkFile_rejects_iff [of rt _ createData, unfolded mismatchValue_def]
  ultimately show ?thesis by blast
qed

theorem nonexistent_is_not_mismatch_witness:
  "\<not> atRoot (str ''/a/B/zzz.txt'') \<and>
   getFilenamesInDir exampleRuntime (path_dirname (str ''/a/B/zzz.txt'')) newPlugin =
     ([str ''c.txt'', str ''Odd'', str ''C.TXT''], cachedPlugin) \<and>
   fileExistsWithCase exampleRuntime (str ''/a/B/zzz.txt'') newPlugin =
     (Some (str ''!nonexistent''), cachedPlugin) \<and>
   checkFile exampleRuntime (str ''/a/B/zzz.txt'') False newPlugin = (Done_null_data, cachedPlugin)"
proof -
  let ?fs = "[str ''c.txt'', str ''Odd'', str ''C.TXT'']"
  have g: "getFilenamesInDir exampleRuntime (path_dirname (str ''/a/B/zzz.txt'')) newPlugin = (?fs, cachedPlugin)"
    by (simp add: example_paths example_listing)
  have n: "\<forall>f\<in>set ?fs. toLowerCase exampleRuntime f \<noteq>
             toLowerCase exampleRuntime (path_basename (str ''/a/B/zzz.txt''))"
    by (simp add: example_paths) (simp add: exampleRuntime_def asciiLower_def str_def)
  from nonexistent_is_not_mismatch [OF example_paths(11) g n, of False] example_paths(11) g
  show ?thesis by simp
qed

text \<open>
  C4 as stated fails on \<open>/a/zzz.txt\<close>: the directory \<open>/a\<close> lists only \<open>B\<close>, but the call
  returns at the root check and passes on nothing rather than \<open>!nonexistent\<close>.
\<close>

theorem nonexistent_at_first_level_counterexample:
  "fst (getFilenamesInDir exampleRuntime (path_dirname (str ''/a/zzz.txt'')) newPlugin) = [str ''B''] \<and>
   toLowerCase exampleRuntime (str ''B'') \<noteq> toLowerCase exampleRuntime (path_basename (str ''/a/zzz.txt'')) \<and>
   fileExistsWithCase exampleRuntime (str ''/a/zzz.txt'') newPlugin = (None, newPlugin) \<and>
   fst (fileExistsWithCase exampleRuntime (str ''/a/zzz.txt'') newPlugin) \<noteq> Some (str ''!nonexistent'')"
proof -
  have "fileExistsWithCase exampleRuntime (str ''/a/zzz.txt'') newPlugin = (None, newPlugin)"
    by (rule fileExistsWithCase_atRoot) (rule example_paths)
  moreover have "toLowerCase exampleRuntime (str ''B'') \<noteq> toLowerCase exampleRuntime (str ''zzz.txt'')"
    by (simp add: exampleRuntime_def asciiLower_def str_def)
  ultimately show ?thesis
    by (simp add: example_paths example_listing)
qed

text \<open>
  C5. When \<open>fs.readdir\<close> fails for a directory \<open>D\<close> that is not cached, the empty list
  is stored as the cache entry of \<open>D\<close> and passed to the callback; a later call for \<open>D\<close>
  returns the empty list without reading, whatever the file system would answer then;
  the outcome is the one an empty directory gives. From then on, and already at the
  failing read itself, every path whose directory is \<open>D\<close> and whose check reads \<open>D\<close> gets
  \<open>!nonexistent\<close>, and \<open>checkFile\<close> calls \<open>done\<close> without an error; paths further down
  inherit the value through the recursion. In every interleaving of a build pass, after the callback of \<open>fs.readdir\<close>
  has reported the failure, the caller has received the empty list, the entry stays
  empty and \<open>fs.readdir\<close> has been called once for \<open>D\<close>.
\<close>

theorem readdir_failure_is_cached_as_empty:
  "(readdir rt D = ReaddirError \<and> pathCache s D = None \<longrightarrow>
      (\<exists>s1. getFilenamesInDir rt D s = ([], s1) \<and>
         pathCache s1 D = Some [] \<and> fsOperations s1 = fsOperations s + 1 \<and>
         (\<forall>rt'. getFilenamesInDir rt' D s1 = ([], s1)) \<and>
         getFilenamesInDir (rt\<lparr>readdir := (readdir rt)(D := ReaddirFiles [])\<rparr>) D s = ([], s1))) \<and>
   (\<forall>p t createData.
      path_dirname p = D \<and> \<not> atRoot p \<and>
      (pathCache t D = Some [] \<or> pathCache t D = None \<and> readdir rt D = ReaddirError) \<longrightarrow>
        fst (fileExistsWithCase rt p t) = Some (str ''!nonexistent'') \<and>
        fst (checkFile rt p createData t) = (if createData then Done_null else Done_null_data)) \<and>
   (\<forall>s0 evs w w1 evs' w'.
      run rt evs (newPass s0) = Some w \<and> step rt (ReaddirDone D ReaddirError) w = Some w1 \<and>
      run rt evs' w1 = Some w' \<longrightarrow>
        (\<exists>c. (c, D, []) \<in> set (delivered w1)) \<and> pathCache (plugin_state w') D = Some [] \<and>
        count_list (readdirLog w') D = 1)"
proof -
  have seq: "\<exists>s1. getFilenamesInDir rt D s = ([], s1) \<and>
         pathCache s1 D = Some [] \<and> fsOperations s1 = fsOperations s + 1 \<and>
         (\<forall>rt'. getFilenamesInDir rt' D s1 = ([], s1)) \<and>
         getFilenamesInDir (rt\<lparr>readdir := (readdir rt)(D := ReaddirFiles [])\<rparr>) D s = ([], s1)"
    if err: "readdir rt D = ReaddirError" and unc: "pathCache s D = None"
  proof -
    let ?s1 = "(ensureMutex D s)\<lparr>fsOperations := fsOperations s + 1,
                                  pathCache := (pathCache s)(D \<mapsto> [])\<rparr>"
    note g = getFilenamesInDir_failure [OF err unc]
    have c: "pathCache ?s1 D = Some []" by simp
    have m: "visitedPathMutexRecord ?s1 D \<noteq> None"
      using visitedPathMutexRecord_ensureMutex [of D s] by simp
    have again: "getFilenamesInDir rt' D ?s1 = ([], ?s1)" for rt'
      by (simp only: getFilenamesInDir_cached [OF c] ensureMutex_idem [OF m])
    have empty: "getFilenamesInDir (rt\<lparr>readdir := (readdir rt)(D := ReaddirFiles [])\<rparr>) D s = ([], ?s1)"
      by (rule getFilenamesInDir_empty_dir) (simp_all add: unc)
    from g c again empty show ?thesis
      by (intro exI [of _ ?s1]) simp
  qed
  have paths: "fst (fileExistsWithCase rt p t) = Some (str ''!nonexistent'') \<and>
        fst (checkFile rt p createData t) = (if createData then Done_null else Done_null_data)"
    if "path_dirname p = D \<and> \<not> atRoot p \<and>
      (pathCache t D = Some [] \<or> pathCache t D = None \<and> readdir rt D = ReaddirError)"
    for p t createData
  proof -
    from that have d: "path_dirname p = D" and nr: "\<not> atRoot p" by simp_all
    from that obtain t' where "getFilenamesInDir rt D t = ([], t')"
      using getFilenamesInDir_cached [of t D "[]" rt] getFilenamesInDir_failure [of rt D t]
      by auto
    with d have g: "getFilenamesInDir rt (path_dirname p) t = ([], t')" by simp
    have r: "fileExistsWithCase rt p t = (Some (str ''!nonexistent''), t')"
      by (simp add: fileExistsWithCase_below [OF nr g])
    then show ?thesis
      by (simp add: checkFile_verdict [OF r])
  qed
  have sched: "(\<exists>c. (c, D, []) \<in> set (delivered w1)) \<and> pathCache (plugin_state w') D = Some [] \<and>
        count_list (readdirLog w') D = 1"
    if "run rt evs (newPass s0) = Some w \<and> step rt (ReaddirDone D ReaddirError) w = Some w1 \<and>
      run rt evs' w1 = Some w'" for s0 evs w w1 evs' w'
  proof -
    from that have r: "run rt evs (newPass s0) = Some w"
      and st: "step rt (ReaddirDone D ReaddirError) w = Some w1"
      and r': "run rt evs' w1 = Some w'" by simp_all
    note inv = run_passInv [OF r passInv_newPass]
    note inv1 = step_passInv [OF st inv]
    note inv' = run_passInv [OF r' inv1]
    from st obtain c m where h: "holderIn Reading D (plugin_state w) = Some (c, m)"
      by (auto simp: Let_def split: option.splits)
    with st have d: "delivered w1 = delivered w @ [(c, D, [])]"
      and c1: "pathCache (plugin_state w1) D = Some []"
      by (auto simp: Let_def readdirCallback_def)
    note c' = run_cache_mono [OF r' inv1 c1]
    from d c' show ?thesis
      by (auto simp: passInv_count [OF inv'])
  qed
  from seq paths sched show ?thesis by blast
qed

theorem readdir_failure_is_cached_as_empty_witness:
  "readdir exampleRuntime (str ''/a/gone'') = ReaddirError \<and>
   pathCache newPlugin (str ''/a/gone'') = None \<and>
   fst (getFilenamesInDir exampleRuntime (str ''/a/gone'') newPlugin) = [] \<and>
   pathCache (snd (getFilenamesInDir exampleRuntime (str ''/a/gone'') newPlugin)) (str ''/a/gone'') = Some [] \<and>
   path_dirname (str ''/a/gone/x.js'') = str ''/a/gone'' \<and> \<not> atRoot (str ''/a/gone/x.js'') \<and>
   fst (fileExistsWithCase exampleRuntime (str ''/a/gone/x.js'') newPlugin) = Some (str ''!nonexistent'') \<and>
   fst (checkFile exampleRuntime (str ''/a/gone/x.js'') False newPlugin) = Done_null_data \<and>
   (\<exists>w w1 w'. run exampleRuntime (take 2 goneEvents) (newPass newPlugin) = Some w \<and>
      step exampleRuntime (ReaddirDone (str ''/a/gone'') ReaddirError) w = Some w1 \<and>
      run exampleRuntime (drop 3 goneEvents) w1 = Some w' \<and>
      delivered w' = [(1, str ''/a/gone'', []), (2, str ''/a/gone'', [])] \<and>
      pathCache (plugin_state w') (str ''/a/gone'') = Some [] \<and>
      count_list (readdirLog w') (str ''/a/gone'') = 1)"
proof -
  note main = readdir_failure_is_cached_as_empty [of exampleRuntime "str ''/a/gone''" newPlugin]
  from main example_gone(1,2) obtain s1 where
    g: "getFilenamesInDir exampleRuntime (str ''/a/gone'') newPlugin = ([], s1)" and
    c: "pathCache s1 (str ''/a/gone'') = Some []"
    by blast
  from main example_gone have
    "fst (fileExistsWithCase exampleRuntime (str ''/a/gone/x.js'') newPlugin) = Some (str ''!nonexistent'')"
    "fst (checkFile exampleRuntime (str ''/a/gone/x.js'') False newPlugin) = Done_null_data"
    by auto
  moreover from example_gone_run obtain w w1 w' where
    r: "run exampleRuntime (take 2 goneEvents) (newPass newPlugin) = Some w"
      "step exampleRuntime (ReaddirDone (str ''/a/gone'') ReaddirError) w = Some w1"
      "run exampleRuntime (drop 3 goneEvents) w1 = Some w'"
      "delivered w' = [(1, str ''/a/gone'', []), (2, str ''/a/gone'', [])]"
    by blast
  moreover from main r(1,2,3) have "pathCache (plugin_state w') (str ''/a/gone'') = Some [] \<and>
      count_list (readdirLog w') (str ''/a/gone'') = 1"
    by blast
  ultimately show ?thesis
    using g c example_gone by auto
qed

text \<open>
  C6. \<open>cleanupPath\<close> keeps what precedes the first \<open>?\<close> and replaces the first escape
  sequence only: of two escaped \<open>#\<close> in a path, the second is still escaped in the path
  that is handed to \<open>checkFile\<close>. The directory of that path cannot be read, its
  listing is empty, and \<open>onAfterResolve\<close> lets the wrongly cased \<open>X.JS\<close> pass, which
  \<open>checkFile\<close> rejects when it is given the path with both \<open>#\<close> unescaped. (That the
  result of \<open>cleanupPath\<close> holds no \<open>?\<close>, that a first escape sequence is replaced, that
  \<open>onAfterResolve\<close> normalises the cleaned path and that a listing is normalised name by
  name are the lemmas of the section on \<open>cleanupPath\<close>.)
\<close>

theorem cleanupPath_leaves_second_escape:
  "cleanupPath (str ''/w/a'' @ [0] @ str ''#1/b'' @ [0] @ str ''#2/X.JS?query'') =
     str ''/w/a#1/b'' @ [0] @ str ''#2/X.JS'' \<and>
   fst (onAfterResolve hashRuntime (str ''/w/a'' @ [0] @ str ''#1/b'' @ [0] @ str ''#2/X.JS?query'')
          False newPlugin) = Done_null_data \<and>
   fst (checkFile hashRuntime (str ''/w/a#1/b#2/X.JS'') False newPlugin) =
     Done_error (str ''[CaseSensitivePathsPlugin] `/w/a#1/b#2/X.JS` does not match the corresponding path on disk `x.js`.'')"
proof -
  have c: "cleanupPath (str ''/w/a'' @ [0] @ str ''#1/b'' @ [0] @ str ''#2/X.JS?query'') =
     str ''/w/a#1/b'' @ [0] @ str ''#2/X.JS''"
    by (simp add: cleanupPath_def str_def)
  have n: "normalizeNFC hashRuntime = (\<lambda>s. s)"
    by (simp add: hashRuntime_def exampleRuntime_def)
  obtain r1 s1 where r1: "fileExistsWithCase hashRuntime (str ''/w/a#1/b#2/X.JS'') newPlugin = (r1, s1)"
    by (cases "fileExistsWithCase hashRuntime (str ''/w/a#1/b#2/X.JS'') newPlugin")
  obtain r2 s2 where r2: "fileExistsWithCase hashRuntime (str ''/w/a#1/b'' @ [0] @ str ''#2/X.JS'') newPlugin = (r2, s2)"
    by (cases "fileExistsWithCase hashRuntime (str ''/w/a#1/b'' @ [0] @ str ''#2/X.JS'') newPlugin")
  from example_hash r1 r2 have v: "r1 = Some (str ''`x.js`.'')" "r2 = Some (str ''!nonexistent'')"
    by simp_all
  have "fst (onAfterResolve hashRuntime (str ''/w/a'' @ [0] @ str ''#1/b'' @ [0] @ str ''#2/X.JS?query'')
          False newPlugin) = Done_null_data"
    unfolding onAfterResolve_path c n checkFile_verdict [OF r2] by (simp add: v)
  moreover have "fst (checkFile hashRuntime (str ''/w/a#1/b#2/X.JS'') False newPlugin) =
     Done_error (str ''[CaseSensitivePathsPlugin] `/w/a#1/b#2/X.JS` does not match the corresponding path on disk `x.js`.'')"
    by (simp add: checkFile_verdict [OF r1] v toString_def) (simp add: str_def)
  ultimately show ?thesis using c by simp
qed

text \<open>
  C7. \<open>onDone\<close> leaves an empty cache, no mutex and a read counter of zero, whatever the
  state was; the next call of \<open>getFilenamesInDir\<close> for any directory, cached before or
  not, calls \<open>fs.readdir\<close> and counts one read.
\<close>

theorem reset_starts_cold:
  "pathCache (onDone s) = Map.empty \<and>
   visitedPathMutexRecord (onDone s) = Map.empty \<and>
   fsOperations (onDone s) = 0 \<and>
   fst (getFilenamesInDir rt D (onDone s)) =
     (case readdir rt D of ReaddirError \<Rightarrow> [] | ReaddirFiles files \<Rightarrow> map (normalizeNFC rt) files) \<and>
   fsOperations (snd (getFilenamesInDir rt D (onDone s))) = 1 \<and>
   (\<exists>w1 w2. step rt (Call c D) (newPass s) = Some w1 \<and> step rt (RunExclusive D) w1 = Some w2 \<and>
      delivered w2 = [] \<and> readdirLog w2 = [D] \<and> fsOperations (plugin_state w2) = 1)"
proof -
  have "\<exists>w1 w2. step rt (Call c D) (newPass s) = Some w1 \<and> step rt (RunExclusive D) w1 = Some w2 \<and>
      delivered w2 = [] \<and> readdirLog w2 = [D] \<and> fsOperations (plugin_state w2) = 1"
    by (simp add: newPass_def reset_def ensureMutex_def newMutex_def setMutex_def acquire_def
        holderIn_def Let_def)
  then show ?thesis
    by (simp add: onDone_def getFilenamesInDir_after_reset) (simp add: reset_def)
qed

theorem reset_starts_cold_witness:
  "pathCache cachedPlugin (str ''/a/B'') = Some [str ''c.txt'', str ''Odd'', str ''C.TXT''] \<and>
   fsOperations cachedPlugin = 1 \<and>
   pathCache (onDone cachedPlugin) (str ''/a/B'') = None \<and>
   fsOperations (onDone cachedPlugin) = 0 \<and>
   fst (getFilenamesInDir exampleRuntime (str ''/a/B'') (onDone cachedPlugin)) =
     [str ''c.txt'', str ''Odd'', str ''C.TXT''] \<and>
   fsOperations (snd (getFilenamesInDir exampleRuntime (str ''/a/B'') (onDone cachedPlugin))) = 1"
proof -
  have "pathCache cachedPlugin (str ''/a/B'') = Some [str ''c.txt'', str ''Odd'', str ''C.TXT'']"
    and "fsOperations cachedPlugin = 1"
    by (simp_all add: cachedPlugin_def seq_eval str_def Let_def)
  moreover have "readdir exampleRuntime (str ''/a/B'') =
      ReaddirFiles [str ''c.txt'', str ''Odd'', str ''C.TXT'']"
    "normalizeNFC exampleRuntime = (\<lambda>s. s)"
    by (simp_all add: exampleRuntime_def exampleFs_def str_def)
  ultimately show ?thesis
    using reset_starts_cold [of cachedPlugin exampleRuntime "str ''/a/B''" 0]
    by simp
qed

text \<open>
  C8. When the parent of the directory of the path is its root, or the directory is
  \<open>.\<close>, \<open>fileExistsWithCase\<close> passes on nothing (\<open>undefined\<close>) and the state of the plugin,
  with its cache, its mutexes and its read counter, is unchanged; \<open>checkFile\<close> calls
  \<open>done\<close> without an error.
\<close>

theorem fileExistsWithCase_stops_at_root:
  assumes "pp_dir (path_parse (path_dirname p)) = pp_root (path_parse (path_dirname p)) \<or>
           path_dirname p = str ''.''"
  shows "fileExistsWithCase rt p s = (None, s) \<and>
         checkFile rt p createData s = (if createData then Done_null else Done_null_data, s)"
proof -
  from assms have "atRoot p" by (simp add: atRoot_def Let_def)
  then have "fileExistsWithCase rt p s = (None, s)" by (rule fileExistsWithCase_atRoot)
  then show ?thesis by (simp add: checkFile_def truthy_def)
qed

theorem fileExistsWithCase_stops_at_root_witness:
  "pp_dir (path_parse (path_dirname (str ''/a/b''))) = pp_root (path_parse (path_dirname (str ''/a/b''))) \<and>
   fileExistsWithCase exampleRuntime (str ''/a/b'') newPlugin = (None, newPlugin) \<and>
   checkFile exampleRuntime (str ''/a/b'') False newPlugin = (Done_null_data, newPlugin)"
proof -
  have h: "pp_dir (path_parse (path_dirname (str ''/a/b''))) = pp_root (path_parse (path_dirname (str ''/a/b'')))"
    by (simp add: path_eval)
  then have "pp_dir (path_parse (path_dirname (str ''/a/b''))) = pp_root (path_parse (path_dirname (str ''/a/b''))) \<or>
           path_dirname (str ''/a/b'') = str ''.''" ..
  from fileExistsWithCase_stops_at_root [OF this, of exampleRuntime newPlugin False] h
  show ?thesis by simp
qed

text \<open>
  C9. A mismatch value, a name between backticks followed by a period, is never the
  string \<open>!nonexistent\<close>. The loop over the listing yields \<open>!nonexistent\<close> exactly when no
  name equals the file name up to case, and otherwise the mismatch value of such a name;
  \<open>fileExistsWithCase\<close> passes on nothing, \<open>!nonexistent\<close> or a mismatch value, and the
  name in a mismatch value is an entry of a listing in the cache; and on a mismatch
  value \<open>checkFile\<close> calls \<open>done\<close> with the error that names it, also when the name on
  disk is \<open>!nonexistent\<close> itself.
\<close>

theorem mismatch_value_is_never_the_sentinel:
  "(\<forall>name. str ''`'' @ name @ str ''`.'' \<noteq> str ''!nonexistent'') \<and>
   (\<forall>filename filenames.
      (correctFilename rt filename filenames = str ''!nonexistent'') =
        (\<forall>f\<in>set filenames. toLowerCase rt f \<noteq> toLowerCase rt filename) \<and>
      (correctFilename rt filename filenames = str ''!nonexistent'' \<or>
       (\<exists>f\<in>set filenames. toLowerCase rt f = toLowerCase rt filename \<and>
          correctFilename rt filename filenames = str ''`'' @ f @ str ''`.''))) \<and>
   (fst (fileExistsWithCase rt p s) = None \<or>
    fst (fileExistsWithCase rt p s) = Some (str ''!nonexistent'') \<or>
    (\<exists>name. fst (fileExistsWithCase rt p s) = Some (str ''`'' @ name @ str ''`.''))) \<and>
   (\<forall>r s'. fileExistsWithCase rt p s = (Some r, s') \<longrightarrow>
      r = str ''!nonexistent'' \<or>
      (\<exists>d names f. pathCache s' d = Some names \<and> f \<in> set names \<and>
         r = str ''`'' @ f @ str ''`.'')) \<and>
   (\<forall>name. fst (fileExistsWithCase rt p s) = Some (str ''`'' @ name @ str ''`.'') \<longrightarrow>
      fst (checkFile rt p createData s) =
        Done_error (str ''[CaseSensitivePathsPlugin] `'' @ p @
          str ''` does not match the corresponding path on disk '' @ str ''`'' @ name @ str ''`.''))"
proof -
  have a: "str ''`'' @ name @ str ''`.'' \<noteq> str ''!nonexistent''" for name
    using mismatchValue_not_sentinel [of name] by (simp add: mismatchValue_def)
  have b: "fst (checkFile rt p createData s) =
        Done_error (str ''[CaseSensitivePathsPlugin] `'' @ p @
          str ''` does not match the corresponding path on disk '' @ str ''`'' @ name @ str ''`.'')"
    if "fst (fileExistsWithCase rt p s) = Some (str ''`'' @ name @ str ''`.'')" for name
  proof -
    obtain r s' where r: "fileExistsWithCase rt p s = (r, s')"
      by (cases "fileExistsWithCase rt p s")
    with that have "r = Some (mismatchValue name)" by (simp add: mismatchValue_def)
    with mismatchValue_not_sentinel [of name] mismatchValue_not_empty [of name] show ?thesis
      by (simp add: checkFile_verdict [OF r] toString_def mismatchValue_def)
  qed
  have c: "r = str ''!nonexistent'' \<or>
      (\<exists>d names f. pathCache s' d = Some names \<and> f \<in> set names \<and>
         r = str ''`'' @ f @ str ''`.'')"
    if "fileExistsWithCase rt p s = (Some r, s')" for r s'
    using fileExistsWithCase_names_entry [OF that] by (simp add: mismatchValue_def)
  from a b c correctFilename_sentinel_iff [of rt]
    correctFilename_cases [of rt, unfolded mismatchValue_def]
    fileExistsWithCase_result [of rt p s, unfolded mismatchValue_def]
  show ?thesis by blast
qed

theorem mismatch_value_is_never_the_sentinel_witness:
  "fst (getFilenamesInDir exampleRuntime (path_dirname (str ''/a/B/Odd/!NONEXISTENT'')) newPlugin) =
     [str ''!nonexistent''] \<and>
   fst (fileExistsWithCase exampleRuntime (str ''/a/B/Odd/!NONEXISTENT'') newPlugin) =
     Some (str ''`!nonexistent`.'') \<and>
   fst (checkFile exampleRuntime (str ''/a/B/Odd/!NONEXISTENT'') False newPlugin) =
     Done_error (str ''[CaseSensitivePathsPlugin] `/a/B/Odd/!NONEXISTENT` does not match the corresponding path on disk `!nonexistent`.'')"
proof -
  obtain s' where g: "getFilenamesInDir exampleRuntime (path_dirname (str ''/a/B/Odd/!NONEXISTENT'')) newPlugin =
      ([str ''!nonexistent''], s')"
    using example_odd(4) by (cases "getFilenamesInDir exampleRuntime (str ''/a/B/Odd'') newPlugin")
      (simp add: example_odd)
  have "correctFilename exampleRuntime (str ''!NONEXISTENT'') [str ''!nonexistent''] = str ''`!nonexistent`.''"
    by (simp add: exampleRuntime_def asciiLower_def str_def)
  moreover have "str ''!NONEXISTENT'' \<noteq> str ''!nonexistent''"
    by (simp add: str_def)
  ultimately have r: "fst (fileExistsWithCase exampleRuntime (str ''/a/B/Odd/!NONEXISTENT'') newPlugin) =
      Some (str ''`'' @ str ''!nonexistent'' @ str ''`.'')"
    by (simp add: fileExistsWithCase_below [OF example_odd(3) g] example_odd) (simp add: str_def)
  from mismatch_value_is_never_the_sentinel [of exampleRuntime "str ''/a/B/Odd/!NONEXISTENT''" newPlugin False] r
  have "fst (checkFile exampleRuntime (str ''/a/B/Odd/!NONEXISTENT'') False newPlugin) =
     Done_error (str ''[CaseSensitivePathsPlugin] `'' @ str ''/a/B/Odd/!NONEXISTENT'' @
          str ''` does not match the corresponding path on disk '' @ str ''`'' @ str ''!nonexistent'' @ str ''`.'')"
    by blast
  with r example_odd show ?thesis
    by (simp add: str_def)
qed

text \<open>
  C10. The recursion of \<open>fileExistsWithCase\<close> ends: a recursive call is made on
  \<open>path.dirname\<close> of the path, only when the root check fails, and then the directory is
  strictly shorter than the path; a path that is its own directory passes the root
  check; so after at most as many steps to the parent as the path has code units the
  root check holds and the call returns at once; and a bound of one more than the
  number of code units on the nested calls is never used up. (The definition of
  \<open>fileExistsWithCase\<close> above is accepted on the strength of the first of these facts.)
\<close>

theorem fileExistsWithCase_terminates:
  "(\<not> atRoot p \<longrightarrow> length (path_dirname p) < length p) \<and>
   (path_dirname p = p \<longrightarrow> atRoot p) \<and>
   (\<exists>n\<le>length p. atRoot ((path_dirname ^^ n) p) \<and>
      (\<forall>rt s. fileExistsWithCase rt ((path_dirname ^^ n) p) s = (None, s))) \<and>
   (\<forall>rt s. fileExistsWithCase_bounded (Suc (length p)) rt p s = Some (fileExistsWithCase rt p s))"
proof -
  from atRoot_reached [of p] obtain n where n: "n \<le> length p" "atRoot ((path_dirname ^^ n) p)"
    by blast
  from n(2) have "\<forall>rt s. fileExistsWithCase rt ((path_dirname ^^ n) p) s = (None, s)"
    by (simp add: fileExistsWithCase_atRoot)
  moreover have "\<forall>rt s. fileExistsWithCase_bounded (Suc (length p)) rt p s =
      Some (fileExistsWithCase rt p s)"
    by (simp add: fileExistsWithCase_bounded_enough del: fileExistsWithCase_bounded.simps)
  ultimately show ?thesis
    using n atRoot_shorter [of p] atRoot_fixpoint [of p] by blast
qed

theorem fileExistsWithCase_terminates_witness:
  "\<not> atRoot (str ''/a/B/c.txt'') \<and>
   length (path_dirname (str ''/a/B/c.txt'')) < length (str ''/a/B/c.txt'') \<and>
   path_dirname (str ''/a/B/c.txt'') \<noteq> str ''/a/B/c.txt'' \<and>
   (\<exists>n\<le>length (str ''/a/B/c.txt''). atRoot ((path_dirname ^^ n) (str ''/a/B/c.txt''))) \<and>
   fileExistsWithCase_bounded (Suc (length (str ''/a/B/c.txt''))) exampleRuntime (str ''/a/B/c.txt'') newPlugin =
     Some (fileExistsWithCase exampleRuntime (str ''/a/B/c.txt'') newPlugin)"
  using fileExistsWithCase_terminates [of "str ''/a/B/c.txt''"] example_atRoot(1)
  by blast

end
